theory Spec2Isabelle
  imports Main "HOL-Library.Word"
begin

unbundle bit_operations_syntax

section \<open>Common types\<close>

text \<open>
  Both headers are written for a 64-bit target: \<open>size_t\<close> and pointers are 64-bit words,
  \<open>uint32_t\<close> is a 32-bit word and \<open>uint8_t\<close> a byte. Unsigned arithmetic wraps as the
  word operations do.

  The two ways the process can stop without returning are values of \<open>error\<close>: \<open>Abort\<close>
  is a call of \<open>abort()\<close>; \<open>UB\<close> is an access the C standard leaves undefined (a read or
  write through \<open>NULL\<close> or outside the entry array). A loop of the source that may run
  forever is a partial function into \<open>option\<close>, \<open>None\<close> being "does not return".

  The \<open>calloc\<close> of the hash table is outside the repository and is taken to succeed:
  its failure branch calls \<open>abort()\<close>, so no operation returns through it.
\<close>

type_synonym addr = "64 word"
type_synonym memory = "addr \<Rightarrow> 8 word"

datatype error = Abort | UB

definition then_res :: "(error + 'a) option \<Rightarrow> ('a \<Rightarrow> (error + 'b) option) \<Rightarrow> (error + 'b) option" where
  "then_res m f = (case m of None \<Rightarrow> None | Some (Inl e) \<Rightarrow> Some (Inl e) | Some (Inr x) \<Rightarrow> f x)"

section \<open>hashmap.h\<close>

subsection \<open>Data\<close>

text \<open>
  \<open>s_hashmap_meta\<close> and the anonymous entry struct of \<open>MAKE_HASHMAP(type)\<close>. The key is a
  borrowed pointer: its bytes live in the caller's memory, which the table only reads.
  \<open>calloc\<close> zero-fills the array, so a fresh entry has a \<open>NULL\<close> key, length 0, \<open>used\<close> 0
  and the zero value of the element type.
\<close>

record hashmap_meta =
  key :: addr
  len :: "32 word"
  used :: "8 word"

record 'v item =
  meta :: hashmap_meta
  data :: 'v

record 'v hashmap =
  count :: "64 word"
  index :: int
  capacity :: "64 word"
  maxcol :: "32 word"
  items :: "'v item list option"

definition zero_item :: "'v::zero item" where
  "zero_item = \<lparr>meta = \<lparr>key = 0, len = 0, used = 0\<rparr>, data = 0\<rparr>"

text \<open>The \<open>{ 0 }\<close> initialiser of a table struct.\<close>

definition hashmap_zero :: "'v hashmap" where
  "hashmap_zero = \<lparr>count = 0, index = 0, capacity = 0, maxcol = 0, items = None\<rparr>"

definition HASHMAP_CAP_DEFAULT :: "64 word" where
  "HASHMAP_CAP_DEFAULT = 8"

subsection \<open>Hashing and key comparison\<close>

text \<open>The \<open>len\<close> bytes starting at \<open>str\<close>.\<close>

definition key_bytes :: "memory \<Rightarrow> addr \<Rightarrow> 32 word \<Rightarrow> 8 word list" where
  "key_bytes mem str n = map (\<lambda>i. mem (str + of_nat i)) [0..<unat n]"

text \<open>\<open>hashmap_hash\<close>: FNV-1, multiply first and then xor the byte in.\<close>

definition hashmap_hash :: "memory \<Rightarrow> addr \<Rightarrow> 32 word \<Rightarrow> 64 word" where
  "hashmap_hash mem str n =
     foldl (\<lambda>hash b. (hash * 0x100000001b3) XOR ucast b) 0xcbf29ce484222325 (key_bytes mem str n)"

text \<open>
  The insertion macros take the key as an expression of the caller's own pointer type:
  \<open>hashmap_hash\<close> and \<open>memcmp\<close> receive it cast or converted to bytes, but
  \<open>hashmap_match_item\<close> reads \<open>(kbuf)[0]\<close> at the caller's type and compares it with the
  \<open>uint8_t\<close> \<open>meta.key[0]\<close>, both promoted to \<open>int\<close>. \<open>char_type\<close> is the element type of
  the caller's pointer: \<open>Unsigned_char\<close> for \<open>uint8_t *\<close> and \<open>unsigned char *\<close>,
  \<open>Signed_char\<close> for \<open>signed char *\<close> and for \<open>char *\<close> where plain \<open>char\<close> is signed (as
  on x86-64; the demo program passes a \<open>char *\<close>). \<open>first_char\<close> is the promoted value
  of a byte read at that type. The key length is compared at the caller's type as well;
  it is taken to lie in the range of \<open>uint32_t\<close>, where the cast changes nothing.
\<close>

datatype char_type = Unsigned_char | Signed_char

definition first_char :: "char_type \<Rightarrow> 8 word \<Rightarrow> int" where
  "first_char kt b = (case kt of Unsigned_char \<Rightarrow> uint b | Signed_char \<Rightarrow> sint b)"

text \<open>
  \<open>hashmap_match_item\<close>: first bytes equal, lengths equal, \<open>memcmp\<close> returns 0. The first
  byte is read whatever the length is.
\<close>

definition hashmap_match_item :: "memory \<Rightarrow> char_type \<Rightarrow> hashmap_meta \<Rightarrow> addr \<Rightarrow> 32 word \<Rightarrow> bool" where
  "hashmap_match_item mem kt m kbuf klen \<longleftrightarrow>
     first_char kt (mem kbuf) = uint (mem (key m)) \<and> klen = len m
     \<and> key_bytes mem kbuf klen = key_bytes mem (key m) klen"

subsection \<open>Lookup\<close>

text \<open>
  The \<open>while (col <= maxcol)\<close> loop of \<open>hashmap_lookup\<close>. \<open>col\<close> is a \<open>uint32_t\<close>: with
  \<open>maxcol = UINT32_MAX\<close> the test never fails. The result is the \<open>ssize_t\<close> return value.
  The key is a \<open>const uint8_t *\<close> parameter (the query macros cast to it), so the first
  bytes are compared as bytes.
\<close>

partial_function (option) lookup_loop ::
  "'v item list \<Rightarrow> 64 word \<Rightarrow> 32 word \<Rightarrow> memory \<Rightarrow> addr \<Rightarrow> 32 word \<Rightarrow> 64 word \<Rightarrow> 32 word
     \<Rightarrow> (error + int) option" where
  "lookup_loop xs msk mc mem str n idx col =
     (if col \<le> mc then
        (if unat idx < length xs then
           (if used (meta (xs ! unat idx)) \<noteq> 0
               \<and> mem (key (meta (xs ! unat idx))) = mem str
               \<and> len (meta (xs ! unat idx)) = n
               \<and> key_bytes mem str n = key_bytes mem (key (meta (xs ! unat idx))) n
            then Some (Inr (sint idx))
            else lookup_loop xs msk mc mem str n ((idx + 1) AND msk) (col + 1))
         else Some (Inl UB))
      else Some (Inr (- 1)))"

declare lookup_loop.simps [code]

definition hashmap_lookup ::
  "'v item list option \<Rightarrow> 64 word \<Rightarrow> 32 word \<Rightarrow> memory \<Rightarrow> addr \<Rightarrow> 32 word \<Rightarrow> (error + int) option" where
  "hashmap_lookup its cap mc mem str n =
     (case its of
        None \<Rightarrow> Some (Inr (- 1))
      | Some xs \<Rightarrow>
          (let msk = cap - 1; idx = hashmap_hash mem str n AND msk
           in lookup_loop xs msk mc mem str n idx 0))"

subsection \<open>Initialisation\<close>

text \<open>\<open>hashmap_init_cap\<close>, \<open>hashmap_init\<close> and \<open>hashmap_deinit\<close>. The \<open>index\<close> field is not touched.\<close>

definition hashmap_init_cap :: "'v::zero hashmap \<Rightarrow> 64 word \<Rightarrow> 'v hashmap" where
  "hashmap_init_cap hm cap =
     hm\<lparr>items := Some (replicate (unat cap) zero_item), count := 0, maxcol := 0, capacity := cap\<rparr>"

definition hashmap_init :: "'v::zero hashmap \<Rightarrow> 'v hashmap" where
  "hashmap_init hm = hashmap_init_cap hm HASHMAP_CAP_DEFAULT"


subsection \<open>Insertion without growing\<close>

text \<open>
  The probe loop of \<open>hashmap_put_nogrow\<close>: it runs over used entries until one matches the
  key or an unused entry is met, and counts the entries it passed in a \<open>uint32_t\<close>. It
  returns the final index and collision count. Nothing bounds it: on an array whose
  entries are all used and none matches it does not return.
\<close>

partial_function (option) put_probe ::
  "'v item list \<Rightarrow> 64 word \<Rightarrow> memory \<Rightarrow> char_type \<Rightarrow> addr \<Rightarrow> 32 word \<Rightarrow> 64 word \<Rightarrow> 32 word
     \<Rightarrow> (error + 64 word \<times> 32 word) option" where
  "put_probe xs msk mem kt kbuf klen idx cnt =
     (if unat idx < length xs then
        (if used (meta (xs ! unat idx)) \<noteq> 0 then
           (if hashmap_match_item mem kt (meta (xs ! unat idx)) kbuf klen then Some (Inr (idx, cnt))
            else put_probe xs msk mem kt kbuf klen ((idx + 1) AND msk) (cnt + 1))
         else Some (Inr (idx, cnt)))
      else Some (Inl UB))"

declare put_probe.simps [code]

text \<open>
  \<open>hashmap_put_nogrow\<close>. The value is stored first; when the entry was already in use the
  macro leaves through \<open>break\<close>, otherwise it fills in the key and raises \<open>count\<close> and,
  if the collision count exceeds it, \<open>maxcol\<close>.
\<close>

definition hashmap_put_nogrow ::
  "'v hashmap \<Rightarrow> memory \<Rightarrow> char_type \<Rightarrow> 'v \<Rightarrow> addr \<Rightarrow> 32 word \<Rightarrow> (error + 'v hashmap) option" where
  "hashmap_put_nogrow hm mem kt v kbuf klen =
     (if count hm \<ge> capacity hm then Some (Inl Abort)
      else case items hm of
        None \<Rightarrow> Some (Inl UB)
      | Some xs \<Rightarrow>
          (let msk = capacity hm - 1 in
           then_res (put_probe xs msk mem kt kbuf klen (hashmap_hash mem kbuf klen AND msk) 0)
             (\<lambda>(idx, cnt).
                let i = unat idx; it = (xs ! i)\<lparr>data := v\<rparr> in
                if used (meta it) \<noteq> 0 then Some (Inr (hm\<lparr>items := Some (xs[i := it])\<rparr>))
                else Some (Inr (hm
                  \<lparr>items := Some (xs[i := it\<lparr>meta := \<lparr>key = kbuf, len = klen, used = 1\<rparr>\<rparr>]),
                   count := count hm + 1,
                   maxcol := (if maxcol hm < cnt then cnt else maxcol hm)\<rparr>)))))"

subsection \<open>Rebuilding\<close>

text \<open>
  The \<open>for\<close> loop shared by \<open>hashmap_grow\<close> and \<open>hashmap_shrink\<close>: for each index of the
  given range, in order, an entry of the old array that is in use is inserted into the
  temporary table. The loop index is a \<open>size_t\<close> below the bound, so it cannot wrap. The
  key handed to \<open>hashmap_put_nogrow\<close> is the \<open>uint8_t *\<close> field \<open>meta.key\<close>.
\<close>

primrec rebuild_loop ::
  "'v item list option \<Rightarrow> memory \<Rightarrow> nat list \<Rightarrow> 'v hashmap \<Rightarrow> (error + 'v hashmap) option" where
  "rebuild_loop old mem [] tmp = Some (Inr tmp)"
| "rebuild_loop old mem (i # js) tmp =
     (case old of
        None \<Rightarrow> Some (Inl UB)
      | Some xs \<Rightarrow>
          if i < length xs then
            (if used (meta (xs ! i)) \<noteq> 0 then
               then_res
                 (hashmap_put_nogrow tmp mem Unsigned_char
                    (data (xs ! i)) (key (meta (xs ! i))) (len (meta (xs ! i))))
                 (rebuild_loop old mem js)
             else rebuild_loop old mem js tmp)
          else Some (Inl UB))"

text \<open>\<open>hashmap_grow\<close>: the loop runs over all \<open>capacity\<close> indices of the old array.\<close>

definition hashmap_grow :: "'v::zero hashmap \<Rightarrow> memory \<Rightarrow> (error + 'v hashmap) option" where
  "hashmap_grow hm mem =
     then_res
       (rebuild_loop (items hm) mem [0..<unat (capacity hm)]
          (hashmap_init_cap hashmap_zero (push_bit 1 (capacity hm))))
       (\<lambda>tmp. Some (Inr (hm\<lparr>items := items tmp, count := count tmp,
                               maxcol := maxcol tmp, capacity := capacity tmp\<rparr>)))"

text \<open>
  \<open>hashmap_shrink\<close>: nothing happens when more than a quarter of the capacity is
  occupied. The loop runs over the indices below \<open>count\<close>.
\<close>

definition hashmap_shrink :: "'v::zero hashmap \<Rightarrow> memory \<Rightarrow> (error + 'v hashmap) option" where
  "hashmap_shrink hm mem =
     (if count hm > capacity hm div 4 then Some (Inr hm)
      else then_res
        (rebuild_loop (items hm) mem [0..<unat (count hm)]
           (hashmap_init_cap hashmap_zero (drop_bit 1 (capacity hm))))
        (\<lambda>tmp. Some (Inr (hm\<lparr>items := items tmp, count := count tmp,
                                maxcol := maxcol tmp, capacity := capacity tmp\<rparr>))))"

subsection \<open>The load-factor test\<close>

text \<open>
  \<open>(double)count / (double)capacity >= 0.7\<close> in IEEE 754 binary64, round to nearest, ties
  to even, written out on naturals.

  \<open>u64_to_double\<close> is the value of the conversion: exact below \<open>2^53\<close>, otherwise rounded
  to 53 significant bits. The literal \<open>0.7\<close> is the double \<open>6305039478318694 / 2^53\<close>; its
  predecessor is \<open>6305039478318693 / 2^53\<close> and its significand is even, so a quotient
  rounds to at least \<open>0.7\<close> exactly when the exact quotient is at least the midpoint
  \<open>12610078956637387 / 2^54\<close>. A division by zero gives infinity, or NaN for \<open>0 / 0\<close>,
  and NaN compares false.
\<close>

fun bitlen :: "nat \<Rightarrow> nat" where
  "bitlen n = (if n = 0 then 0 else Suc (bitlen (n div 2)))"

declare bitlen.simps [simp del]

definition u64_to_double :: "64 word \<Rightarrow> nat" where
  "u64_to_double w =
     (let n = unat w in
      if n < 2 ^ 53 then n
      else let e = bitlen n - 53; q = n div 2 ^ e; r = n mod 2 ^ e
           in (if 2 ^ e < 2 * r \<or> (2 * r = 2 ^ e \<and> odd q) then q + 1 else q) * 2 ^ e)"

definition load_factor_ge_07 :: "64 word \<Rightarrow> 64 word \<Rightarrow> bool" where
  "load_factor_ge_07 cnt cap =
     (let a = u64_to_double cnt; b = u64_to_double cap in
      if b = 0 then 0 < a else 12610078956637387 * b \<le> a * 2 ^ 54)"

subsection \<open>Insertion, removal and queries\<close>

text \<open>\<open>hashmap_put\<close>: the load factor is tested, and the table grown, before the insertion.\<close>

definition hashmap_put ::
  "'v::zero hashmap \<Rightarrow> memory \<Rightarrow> char_type \<Rightarrow> 'v \<Rightarrow> addr \<Rightarrow> 32 word \<Rightarrow> (error + 'v hashmap) option" where
  "hashmap_put hm mem kt v kbuf klen =
     (if load_factor_ge_07 (count hm) (capacity hm)
      then then_res (hashmap_grow hm mem) (\<lambda>hm'. hashmap_put_nogrow hm' mem kt v kbuf klen)
      else hashmap_put_nogrow hm mem kt v kbuf klen)"

text \<open>
  Modelled from the spec: the macro \<open>hashmap_index_var\<close>, which \<open>hashmap_remove\<close> calls, is
  not defined in \<open>hashmap.h\<close>. Removal acts on "the matched slot" of the lookup, so the
  macro is taken to store the result of \<open>hashmap_lookup\<close> in the given variable, as its
  sibling \<open>hashmap_index\<close> stores it in the \<open>index\<close> field.
\<close>

definition hashmap_index_var :: "'v hashmap \<Rightarrow> memory \<Rightarrow> addr \<Rightarrow> 32 word \<Rightarrow> (error + int) option" where
  "hashmap_index_var hm mem kbuf klen =
     hashmap_lookup (items hm) (capacity hm) (maxcol hm) mem kbuf klen"

text \<open>\<open>hashmap_remove\<close>: the entry found is marked unused and \<open>count\<close> decremented.\<close>

definition hashmap_remove ::
  "'v hashmap \<Rightarrow> memory \<Rightarrow> addr \<Rightarrow> 32 word \<Rightarrow> (error + 'v hashmap) option" where
  "hashmap_remove hm mem kbuf klen =
     then_res (hashmap_index_var hm mem kbuf klen)
       (\<lambda>i. if i \<ge> 0 then
               (case items hm of
                  None \<Rightarrow> Some (Inl UB)
                | Some xs \<Rightarrow>
                    if nat i < length xs then
                      Some (Inr (hm\<lparr>items := Some (xs[nat i := (xs ! nat i)
                                          \<lparr>meta := (meta (xs ! nat i))\<lparr>used := 0\<rparr>\<rparr>]),
                                    count := count hm - 1\<rparr>))
                    else Some (Inl UB))
             else Some (Inr hm))"


definition hashmap_contains :: "'v hashmap \<Rightarrow> memory \<Rightarrow> addr \<Rightarrow> 32 word \<Rightarrow> (error + bool \<times> 'v hashmap) option" where
  "hashmap_contains hm mem kstr klen =
     then_res (hashmap_lookup (items hm) (capacity hm) (maxcol hm) mem kstr klen)
       (\<lambda>i. Some (Inr (i \<ge> 0, hm\<lparr>index := i\<rparr>)))"

definition hashmap_at :: "'v hashmap \<Rightarrow> int \<Rightarrow> error + 'v" where
  "hashmap_at hm i =
     (case items hm of
        None \<Rightarrow> Inl UB
      | Some xs \<Rightarrow> if 0 \<le> i \<and> nat i < length xs then Inr (data (xs ! nat i)) else Inl UB)"

definition hashmap_get :: "'v hashmap \<Rightarrow> memory \<Rightarrow> addr \<Rightarrow> 32 word \<Rightarrow> (error + 'v \<times> 'v hashmap) option" where
  "hashmap_get hm mem kstr klen =
     then_res (hashmap_lookup (items hm) (capacity hm) (maxcol hm) mem kstr klen)
       (\<lambda>i. case hashmap_at hm i of
               Inl e \<Rightarrow> Some (Inl e)
             | Inr v \<Rightarrow> Some (Inr (v, hm\<lparr>index := i\<rparr>)))"

section \<open>arena.h\<close>

subsection \<open>Data\<close>

text \<open>
  \<open>struct _memory_region\<close>: \<open>base\<close> is the address of the struct itself, as the backing
  allocator returned it; the flexible array \<open>mem\<close> starts after the three 8-byte fields.
  The \<open>next\<close> pointers, \<open>head\<close> and \<open>tail\<close> are the list \<open>regions\<close>: its first element is
  the head, its last the tail, and \<open>NULL\<close> is the empty list.
\<close>

record memory_region =
  size_r :: "64 word"
  offset :: "64 word"
  base :: addr

record arena =
  total :: "64 word"
  regions :: "memory_region list"

definition region_mem :: "memory_region \<Rightarrow> addr" where
  "region_mem r = base r + 24"

text \<open>
  The memory the arena works on. \<open>hsize\<close> holds the \<open>size\<close> field of the
  \<open>struct _arena_alloc_header\<close> stored at an address, \<open>bytes\<close> the payload bytes.
  \<open>backend\<close> is the backing allocator: the addresses its next calls return, in order;
  when none is left the allocator fails.
\<close>

record heap =
  hsize :: "addr \<Rightarrow> 64 word"
  bytes :: memory
  backend :: "addr list"

definition ARENA_DEFAULT_CAPACITY :: "64 word" where
  "ARENA_DEFAULT_CAPACITY = 2 * 4096"

text \<open>\<open>sizeof(struct _arena_alloc_header)\<close> and \<open>sizeof(struct _memory_region)\<close>.\<close>

definition header_size :: "64 word" where
  "header_size = 8"

definition region_struct_size :: "64 word" where
  "region_struct_size = 24"

subsection \<open>Regions\<close>

text \<open>\<open>_arena_append_region\<close>: aborts when the backing allocator fails.\<close>

definition arena_append_region :: "arena \<times> heap \<Rightarrow> 64 word \<Rightarrow> error + arena \<times> heap" where
  "arena_append_region ah sz =
     (case ah of (a, h) \<Rightarrow>
        (case backend h of
           [] \<Rightarrow> Inl Abort
         | blk # rest \<Rightarrow>
             Inr (a\<lparr>regions := regions a @ [\<lparr>size_r = sz, offset = 0, base = blk\<rparr>],
                     total := total a + (region_struct_size + sz)\<rparr>,
                  h\<lparr>backend := rest\<rparr>)))"

definition arena_init :: "arena \<times> heap \<Rightarrow> error + arena \<times> heap" where
  "arena_init ah = (case ah of (a, h) \<Rightarrow> arena_append_region (a\<lparr>total := 0\<rparr>, h) ARENA_DEFAULT_CAPACITY)"

subsection \<open>Allocation\<close>

text \<open>The first-fit scan of \<open>arena_alloc\<close>: the index of the first region with room.\<close>

primrec first_fit :: "memory_region list \<Rightarrow> 64 word \<Rightarrow> nat option" where
  "first_fit [] required = None"
| "first_fit (r # rs) required =
     (if required \<le> size_r r - offset r then Some 0 else map_option Suc (first_fit rs required))"

text \<open>Writing the header at the region's offset and bumping the offset.\<close>

definition bump :: "arena \<times> heap \<Rightarrow> nat \<Rightarrow> 64 word \<Rightarrow> 64 word \<Rightarrow> addr \<times> arena \<times> heap" where
  "bump ah i sz required =
     (case ah of (a, h) \<Rightarrow>
        (let r = regions a ! i; header = region_mem r + offset r
         in (header + header_size,
             a\<lparr>regions := (regions a)[i := r\<lparr>offset := offset r + required\<rparr>]\<rparr>,
             h\<lparr>hsize := (hsize h)(header := sz)\<rparr>)))"

definition arena_alloc :: "arena \<times> heap \<Rightarrow> 64 word \<Rightarrow> error + addr \<times> arena \<times> heap" where
  "arena_alloc ah sz =
     (case (if regions (fst ah) = [] then arena_init ah else Inr ah) of
        Inl e \<Rightarrow> Inl e
      | Inr ah1 \<Rightarrow>
          (let required = header_size + sz in
           case first_fit (regions (fst ah1)) required of
             Some i \<Rightarrow> Inr (bump ah1 i sz required)
           | None \<Rightarrow>
               (case arena_append_region ah1
                       (if required > ARENA_DEFAULT_CAPACITY then required else ARENA_DEFAULT_CAPACITY) of
                  Inl e \<Rightarrow> Inl e
                | Inr ah2 \<Rightarrow> Inr (bump ah2 (length (regions (fst ah2)) - 1) sz required))))"

subsection \<open>Finding the region of a pointer\<close>

primrec find_region_loop :: "memory_region list \<Rightarrow> addr \<Rightarrow> addr \<Rightarrow> nat option" where
  "find_region_loop [] ptr endptr = None"
| "find_region_loop (r # rs) ptr endptr =
     (if ptr \<ge> region_mem r \<and> endptr \<le> region_mem r + offset r then Some 0
      else map_option Suc (find_region_loop rs ptr endptr))"

text \<open>\<open>_arena_find_region\<close>: the index of the region in the chain, or \<open>abort()\<close>.\<close>

definition arena_find_region :: "arena \<times> heap \<Rightarrow> addr \<Rightarrow> error + nat" where
  "arena_find_region ah ptr =
     (case ah of (a, h) \<Rightarrow>
        (let header = ptr - header_size; endptr = ptr + hsize h header
         in case find_region_loop (regions a) ptr endptr of
              None \<Rightarrow> Inl Abort
            | Some i \<Rightarrow> Inr i))"

subsection \<open>Freeing and reallocating\<close>

text \<open>
  \<open>arena_free\<close>: when the block ends at the region's offset, the offset is lowered by
  \<open>header->size - sizeof(*header)\<close>, computed in \<open>size_t\<close>.
\<close>

definition arena_free :: "arena \<times> heap \<Rightarrow> addr \<Rightarrow> error + arena \<times> heap" where
  "arena_free ah ptr =
     (if ptr = 0 then Inr ah
      else case ah of (a, h) \<Rightarrow>
        (let header = ptr - header_size in
         case arena_find_region ah ptr of
           Inl e \<Rightarrow> Inl e
         | Inr i \<Rightarrow>
             (let r = regions a ! i in
              if ptr + hsize h header = region_mem r + offset r
              then Inr (a\<lparr>regions := (regions a)[i := r\<lparr>offset := offset r - (hsize h header - header_size)\<rparr>]\<rparr>, h)
              else Inr ah)))"

text \<open>\<open>memcpy\<close> on the payload bytes (source and destination do not overlap).\<close>

definition memcpy :: "memory \<Rightarrow> addr \<Rightarrow> addr \<Rightarrow> 64 word \<Rightarrow> memory" where
  "memcpy m dst src n = (\<lambda>a. if a - dst < n then m (src + (a - dst)) else m a)"

definition arena_realloc :: "arena \<times> heap \<Rightarrow> addr \<Rightarrow> 64 word \<Rightarrow> error + addr \<times> arena \<times> heap" where
  "arena_realloc ah ptr sz =
     (if ptr = 0 then arena_alloc ah sz
      else case ah of (a, h) \<Rightarrow>
        (let header = ptr - header_size in
         if sz \<le> hsize h header then Inr (ptr, a, h\<lparr>hsize := (hsize h)(header := sz)\<rparr>)
         else
           (let required = sz - hsize h header; endptr = ptr + hsize h header in
            case arena_find_region ah ptr of
              Inl e \<Rightarrow> Inl e
            | Inr i \<Rightarrow>
                (let r = regions a ! i in
                 if endptr = region_mem r + offset r \<and> required \<le> size_r r - offset r
                 then Inr (ptr,
                           a\<lparr>regions := (regions a)[i := r\<lparr>offset := offset r + required\<rparr>]\<rparr>,
                           h\<lparr>hsize := (hsize h)(header := sz)\<rparr>)
                 else
                   (case arena_alloc ah sz of
                      Inl e \<Rightarrow> Inl e
                    | Inr (p, a', h') \<Rightarrow>
                        Inr (p, a', h'\<lparr>bytes := memcpy (bytes h') p ptr (hsize h header)\<rparr>))))))"

section \<open>Runs and test data\<close>

text \<open>
  A sequence of \<open>hashmap_put\<close> calls, each given as value, key pointer and key length, the
  key pointers all of the same type.
\<close>

primrec put_all ::
  "'v::zero hashmap \<Rightarrow> memory \<Rightarrow> char_type \<Rightarrow> ('v \<times> addr \<times> 32 word) list \<Rightarrow> (error + 'v hashmap) option" where
  "put_all hm mem kt [] = Some (Inr hm)"
| "put_all hm mem kt (p # ps) =
     then_res (hashmap_put hm mem kt (fst p) (fst (snd p)) (snd (snd p))) (\<lambda>hm'. put_all hm' mem kt ps)"

text \<open>
  A memory holding the one-letter words \<open>a\<close>, \<open>b\<close>, ... \<open>p\<close>, each followed by a NUL byte,
  at the even addresses from \<open>0x1000\<close>, as the demo program stores the lines it reads.
  The words \<open>a\<close> (at \<open>0x1000\<close>) and \<open>i\<close> (at \<open>0x1010\<close>) hash to the same slot of a table
  of capacity 8.
\<close>

definition dict_mem :: memory where
  "dict_mem a =
     (if 0x1000 \<le> a \<and> a < 0x1020 \<and> a AND 1 = 0 then 0x61 + ucast (drop_bit 1 (a - 0x1000)) else 0)"

text \<open>
  A memory holding the two bytes \<open>0xC3 0xA9\<close>, the UTF-8 encoding of the letter e with an
  acute accent, at \<open>0x2000\<close>, and the table after two puts of that key through a pointer to
  signed \<open>char\<close>.
\<close>

definition accent_mem :: memory where
  "accent_mem a = (if a = 0x2000 then 0xC3 else if a = 0x2001 then 0xA9 else 0)"

definition accent_table :: "int hashmap" where
  "accent_table =
     \<lparr>count = 2, index = 0, capacity = 8, maxcol = 1,
      items = Some [\<lparr>meta = \<lparr>key = 0, len = 0, used = 0\<rparr>, data = 0\<rparr>,
                    \<lparr>meta = \<lparr>key = 0, len = 0, used = 0\<rparr>, data = 0\<rparr>,
                    \<lparr>meta = \<lparr>key = 0, len = 0, used = 0\<rparr>, data = 0\<rparr>,
                    \<lparr>meta = \<lparr>key = 0, len = 0, used = 0\<rparr>, data = 0\<rparr>,
                    \<lparr>meta = \<lparr>key = 0, len = 0, used = 0\<rparr>, data = 0\<rparr>,
                    \<lparr>meta = \<lparr>key = 0x2000, len = 2, used = 1\<rparr>, data = 1\<rparr>,
                    \<lparr>meta = \<lparr>key = 0x2000, len = 2, used = 1\<rparr>, data = 2\<rparr>,
                    \<lparr>meta = \<lparr>key = 0, len = 0, used = 0\<rparr>, data = 0\<rparr>]\<rparr>"

definition six_words :: "(int \<times> addr \<times> 32 word) list" where
  "six_words = [(1, 0x1000, 1), (2, 0x1002, 1), (3, 0x1004, 1), (4, 0x1006, 1), (5, 0x1008, 1), (6, 0x100a, 1)]"

text \<open>A zero-initialised arena and a memory whose backing allocator can serve two blocks.\<close>

definition arena_zero :: arena where
  "arena_zero = \<lparr>total = 0, regions = []\<rparr>"

definition heap0 :: heap where
  "heap0 = \<lparr>hsize = (\<lambda>_. 0), bytes = (\<lambda>_. 0), backend = [0x10000, 0x20000]\<rparr>"

text \<open>
  The same with the second block close behind the first: the first block, a region
  struct and 8192 bytes, ends at \<open>0x12018\<close>.
\<close>

definition heap_near :: heap where
  "heap_near = \<lparr>hsize = (\<lambda>_. 0), bytes = (\<lambda>_. 0), backend = [0x10000, 0x12100]\<rparr>"


subsection \<open>Well-formed arenas\<close>

text \<open>
  A block returned by the backing allocator lies in the address space without wrapping
  around, and distinct blocks do not overlap. \<open>region_fits\<close> also asks for the offset to
  be within the size. \<open>top_block r h ptr\<close> says that \<open>ptr\<close> is the payload of a block whose
  header lies in the buffer of \<open>r\<close> and whose payload ends at the offset of \<open>r\<close>.
\<close>

definition region_fits :: "memory_region \<Rightarrow> bool" where
  "region_fits r \<longleftrightarrow> unat (base r) + 24 + unat (size_r r) < 2 ^ 64 \<and> offset r \<le> size_r r"

definition apart :: "memory_region \<Rightarrow> memory_region \<Rightarrow> bool" where
  "apart r s \<longleftrightarrow>
     unat (base r) + 24 + unat (size_r r) \<le> unat (base s) \<or>
     unat (base s) + 24 + unat (size_r s) \<le> unat (base r)"

primrec blocks_disjoint :: "memory_region list \<Rightarrow> bool" where
  "blocks_disjoint [] = True"
| "blocks_disjoint (r # rs) = (list_all (apart r) rs \<and> blocks_disjoint rs)"

definition arena_wf :: "arena \<Rightarrow> bool" where
  "arena_wf a \<longleftrightarrow> list_all region_fits (regions a) \<and> blocks_disjoint (regions a)"

definition top_block :: "memory_region \<Rightarrow> heap \<Rightarrow> addr \<Rightarrow> bool" where
  "top_block r h ptr \<longleftrightarrow>
     unat (region_mem r) + 8 \<le> unat ptr \<and>
     unat ptr + unat (hsize h (ptr - header_size)) = unat (region_mem r) + unat (offset r)"

text \<open>The arena and memory after \<open>arena_alloc(16)\<close> on the zero-initialised arena.\<close>

definition arena1 :: arena where
  "arena1 = \<lparr>total = 8216, regions = [\<lparr>size_r = 8192, offset = 24, base = 0x10000\<rparr>]\<rparr>"

definition heap1 :: heap where
  "heap1 = \<lparr>hsize = (\<lambda>a. if a = 0x10018 then 16 else 0), bytes = (\<lambda>_. 0), backend = [0x20000]\<rparr>"

section \<open>Specification-level notions for the hash table\<close>

text \<open>
  The lookup as the specification words it: \<open>probe_slots cap h n\<close> are the \<open>n\<close> consecutive
  slots from \<open>h\<close>, wrapping modulo the capacity; \<open>slot_hit\<close> is "used, equal first byte,
  equal stored length, byte-equal key"; \<open>lookup_spec\<close> returns the first of the
  \<open>maxcol + 1\<close> slots from the hash-derived slot that is a hit, and -1 when none is.
\<close>

definition slot_hit :: "memory \<Rightarrow> addr \<Rightarrow> 32 word \<Rightarrow> 'v item \<Rightarrow> bool" where
  "slot_hit mem str n e \<longleftrightarrow>
     used (meta e) \<noteq> 0 \<and> mem (key (meta e)) = mem str \<and> len (meta e) = n
     \<and> key_bytes mem str n = key_bytes mem (key (meta e)) n"

definition probe_slots :: "nat \<Rightarrow> nat \<Rightarrow> nat \<Rightarrow> nat list" where
  "probe_slots cap h n = map (\<lambda>d. (h + d) mod cap) [0..<n]"

definition lookup_spec :: "'v item list \<Rightarrow> 64 word \<Rightarrow> 32 word \<Rightarrow> memory \<Rightarrow> addr \<Rightarrow> 32 word \<Rightarrow> int" where
  "lookup_spec xs cap mc mem str n =
     (case find (\<lambda>i. slot_hit mem str n (xs ! i))
             (probe_slots (unat cap) (unat (hashmap_hash mem str n AND (cap - 1))) (unat mc + 1)) of
        None \<Rightarrow> - 1
      | Some i \<Rightarrow> int i)"

text \<open>
  \<open>entry k l v\<close> is a used entry. \<open>home_slot\<close> is the hash-derived slot of a key.
  \<open>same_key mem k1 l1 k2 l2\<close> says that the key \<open>(k2, l2)\<close> matches a stored key
  \<open>(k1, l1)\<close> in the sense of \<open>hashmap_match_item\<close> on bytes.

  \<open>collided_pair\<close> is the table holding a key A in its home slot and a key B one slot
  further, \<open>collided_pair_removed\<close> the same table after the removal of A.
\<close>

definition entry :: "addr \<Rightarrow> 32 word \<Rightarrow> 'v \<Rightarrow> 'v item" where
  "entry k l v = \<lparr>meta = \<lparr>key = k, len = l, used = 1\<rparr>, data = v\<rparr>"

definition home_slot :: "memory \<Rightarrow> 64 word \<Rightarrow> addr \<Rightarrow> 32 word \<Rightarrow> nat" where
  "home_slot mem cap k l = unat (hashmap_hash mem k l AND (cap - 1))"

definition same_key :: "memory \<Rightarrow> addr \<Rightarrow> 32 word \<Rightarrow> addr \<Rightarrow> 32 word \<Rightarrow> bool" where
  "same_key mem k1 l1 k2 l2 \<longleftrightarrow>
     hashmap_match_item mem Unsigned_char \<lparr>key = k1, len = l1, used = 1\<rparr> k2 l2"

definition collided_pair ::
  "memory \<Rightarrow> 'v \<Rightarrow> addr \<Rightarrow> 32 word \<Rightarrow> 'v \<Rightarrow> addr \<Rightarrow> 32 word \<Rightarrow> 'v::zero hashmap" where
  "collided_pair mem va ka la vb kb lb =
     (let h = home_slot mem 8 ka la in
      \<lparr>count = 2, index = 0, capacity = 8, maxcol = 1,
       items = Some ((replicate 8 zero_item)[h := entry ka la va, (h + 1) mod 8 := entry kb lb vb])\<rparr>)"

definition collided_pair_removed ::
  "memory \<Rightarrow> 'v \<Rightarrow> addr \<Rightarrow> 32 word \<Rightarrow> 'v \<Rightarrow> addr \<Rightarrow> 32 word \<Rightarrow> 'v::zero hashmap" where
  "collided_pair_removed mem va ka la vb kb lb =
     (let h = home_slot mem 8 ka la in
      \<lparr>count = 1, index = 0, capacity = 8, maxcol = 1,
       items = Some ((replicate 8 zero_item)
                [h := (entry ka la va)\<lparr>meta := \<lparr>key = ka, len = la, used = 0\<rparr>\<rparr>,
                 (h + 1) mod 8 := entry kb lb vb])\<rparr>)"

text \<open>
  Three concrete tables over \<open>dict_mem\<close>: after putting \<open>a\<close> and \<open>i\<close> (which collide in
  slot 6), after then removing \<open>a\<close>, and after then putting \<open>i\<close> again.
\<close>

definition pair_table :: "int hashmap" where
  "pair_table =
     \<lparr>count = 2, index = 0, capacity = 8, maxcol = 1,
      items = Some [zero_item, zero_item, zero_item, zero_item, zero_item, zero_item,
                    entry 0x1000 1 1, entry 0x1010 1 2]\<rparr>"

definition gap_table :: "int hashmap" where
  "gap_table =
     \<lparr>count = 1, index = 0, capacity = 8, maxcol = 1,
      items = Some [zero_item, zero_item, zero_item, zero_item, zero_item, zero_item,
                    \<lparr>meta = \<lparr>key = 0x1000, len = 1, used = 0\<rparr>, data = 1\<rparr>, entry 0x1010 1 2]\<rparr>"


section \<open>Reachable tables\<close>


text \<open>
  \<open>table_ok hm k xs\<close>: the entry array \<open>xs\<close> has \<open>2 ^ k\<close> entries, \<open>capacity\<close> is \<open>2 ^ k\<close>
  and \<open>count\<close> is the number of entries in use.
\<close>

definition used_count :: "'v item list \<Rightarrow> nat" where
  "used_count xs = length (filter (\<lambda>e. used (meta e) \<noteq> 0) xs)"

definition table_ok :: "'v hashmap \<Rightarrow> nat \<Rightarrow> 'v item list \<Rightarrow> bool" where
  "table_ok hm k xs \<longleftrightarrow>
     k < 64 \<and> capacity hm = 2 ^ k \<and> items hm = Some xs \<and> length xs = 2 ^ k
     \<and> unat (count hm) = used_count xs"

text \<open>The tables after putting the first five and the first six of \<open>six_words\<close>.\<close>

definition five_table :: "int hashmap" where
  "five_table =
     \<lparr>count = 5, index = 0, capacity = 8, maxcol = 0,
      items = Some [zero_item, zero_item, entry 0x1008 1 5, entry 0x1006 1 4, entry 0x1004 1 3,
                    entry 0x1002 1 2, entry 0x1000 1 1, zero_item]\<rparr>"

definition six_table :: "int hashmap" where
  "six_table =
     \<lparr>count = 6, index = 0, capacity = 8, maxcol = 0,
      items = Some [zero_item, entry 0x100a 1 6, entry 0x1008 1 5, entry 0x1006 1 4, entry 0x1004 1 3,
                    entry 0x1002 1 2, entry 0x1000 1 1, zero_item]\<rparr>"


section \<open>The probe invariant\<close>

text \<open>
  What the insertions keep and the lookup relies on. \<open>chain_ok mem xs k mc i\<close>: the used
  entry in slot \<open>i\<close> lies at most \<open>mc\<close> slots past the hash-derived slot of its key, and
  every slot from there up to \<open>i\<close> holds a used entry with another key. \<open>probe_inv\<close>: the
  table is well-shaped with at most \<open>2 ^ 31\<close> slots, so that a collision count fits the
  \<open>uint32_t\<close> \<open>maxcol\<close>, and every used entry satisfies \<open>chain_ok\<close> for the table's \<open>maxcol\<close>.

  \<open>triple e\<close> is the value, key pointer and key length of an entry; \<open>entries xs\<close> are the
  triples of the used entries of an array, \<open>ent xs J\<close> those of the used entries at the
  indices in \<open>J\<close>. \<open>distinct_keys mem ops\<close>: no two puts of the sequence have matching keys.
\<close>

definition chain_ok :: "memory \<Rightarrow> 'v item list \<Rightarrow> nat \<Rightarrow> 32 word \<Rightarrow> nat \<Rightarrow> bool" where
  "chain_ok mem xs k mc i \<longleftrightarrow>
     (let m = meta (xs ! i); h = home_slot mem (2 ^ k) (key m) (len m); d = (i + 2 ^ k - h) mod 2 ^ k
      in d \<le> unat mc
         \<and> (\<forall>j<d. used (meta (xs ! ((h + j) mod 2 ^ k))) \<noteq> 0
                   \<and> \<not> hashmap_match_item mem Unsigned_char (meta (xs ! ((h + j) mod 2 ^ k))) (key m) (len m)))"

definition probe_inv :: "memory \<Rightarrow> 'v hashmap \<Rightarrow> nat \<Rightarrow> 'v item list \<Rightarrow> bool" where
  "probe_inv mem hm k xs \<longleftrightarrow>
     table_ok hm k xs \<and> k \<le> 31 \<and> unat (maxcol hm) < 2 ^ k
     \<and> (\<forall>i<2 ^ k. used (meta (xs ! i)) \<noteq> 0 \<longrightarrow> chain_ok mem xs k (maxcol hm) i)"

definition triple :: "'v item \<Rightarrow> 'v \<times> addr \<times> 32 word" where
  "triple e = (data e, key (meta e), len (meta e))"

definition entries :: "'v item list \<Rightarrow> ('v \<times> addr \<times> 32 word) set" where
  "entries xs = triple ` {e \<in> set xs. used (meta e) \<noteq> 0}"

definition ent :: "'v item list \<Rightarrow> nat set \<Rightarrow> ('v \<times> addr \<times> 32 word) set" where
  "ent xs J = {triple (xs ! j) | j. j \<in> J \<and> used (meta (xs ! j)) \<noteq> 0}"

primrec distinct_keys :: "memory \<Rightarrow> ('v \<times> addr \<times> 32 word) list \<Rightarrow> bool" where
  "distinct_keys mem [] = True"
| "distinct_keys mem (p # ps) =
     (list_all (\<lambda>q. \<not> same_key mem (fst (snd p)) (snd (snd p)) (fst (snd q)) (snd (snd q))) ps
      \<and> distinct_keys mem ps)"

text \<open>
  The words \<open>a\<close> to \<open>g\<close> and the table after putting them into a fresh table: the first
  six are rebuilt into 16 slots before the seventh is placed.
\<close>

definition seven_words :: "(int \<times> addr \<times> 32 word) list" where
  "seven_words = six_words @ [(7, 0x100c, 1)]"

definition seven_table :: "int hashmap" where
  "seven_table =
     \<lparr>count = 7, index = 0, capacity = 16, maxcol = 0,
      items = Some [zero_item, zero_item, zero_item, zero_item, zero_item, zero_item, zero_item,
                    zero_item, entry 0x100c 1 7, entry 0x100a 1 6, entry 0x1008 1 5,
                    entry 0x1006 1 4, entry 0x1004 1 3, entry 0x1002 1 2, entry 0x1000 1 1,
                    zero_item]\<rparr>"

section \<open>Evaluating the hash table on concrete inputs\<close>

lemma replicate_2: "replicate 2 x = [x, x]"
  by (simp add: numeral_2_eq_2)

lemma replicate_4: "replicate 4 x = [x, x, x, x]"
  by (simp add: numeral_Bit0 replicate_add)

lemma replicate_8: "replicate 8 x = [x, x, x, x, x, x, x, x]"
  by (simp add: numeral_eq_Suc)

lemma replicate_16: "replicate 16 x = [x, x, x, x, x, x, x, x, x, x, x, x, x, x, x, x]"
  by (simp add: numeral_eq_Suc)

lemma list_update_numeral: "(x # xs)[numeral n := y] = x # xs[pred_numeral n := y]"
  by (simp add: numeral_eq_Suc)

lemmas hm_eval =
  hashmap_put_def load_factor_ge_07_def u64_to_double_def hashmap_init_def hashmap_init_cap_def
  hashmap_zero_def HASHMAP_CAP_DEFAULT_def hashmap_put_nogrow_def then_res_def put_probe.simps
  zero_item_def hashmap_hash_def key_bytes_def dict_mem_def hashmap_match_item_def hashmap_grow_def
  hashmap_shrink_def hashmap_lookup_def lookup_loop.simps hashmap_remove_def hashmap_index_var_def
  first_char_def six_words_def word_le_nat_alt word_less_nat_alt upt_conv_Cons replicate_2 replicate_4
  replicate_8 replicate_16 list_update_numeral

section \<open>Shrinking loses entries\<close>

text \<open>
  C4 (the shrink half fails). One word is put into a fresh table; it lands in slot 6.
  \<open>hashmap_shrink\<close> then runs (1 is at most 8 / 4), but its loop visits only the indices
  below \<open>count = 1\<close>, that is slot 0, so the word is not re-inserted: before the rebuild
  the lookup finds it at index 6, afterwards the table has capacity 4, count 0 and the
  lookup returns -1. \<open>hashmap_grow\<close> runs the same loop up to \<open>capacity\<close>.
\<close>

theorem shrink_drops_entry:
  "(case hashmap_put (hashmap_init hashmap_zero) dict_mem Signed_char (1::int) 0x1000 1 of
      Some (Inr hm) \<Rightarrow>
        (case hashmap_shrink hm dict_mem of
           Some (Inr hm2) \<Rightarrow>
             Some (count hm, capacity hm,
                   hashmap_lookup (items hm) (capacity hm) (maxcol hm) dict_mem 0x1000 1,
                   count hm2, capacity hm2,
                   hashmap_lookup (items hm2) (capacity hm2) (maxcol hm2) dict_mem 0x1000 1)
         | _ \<Rightarrow> None)
    | _ \<Rightarrow> None)
   = Some (1, 8, Some (Inr 6), 0, 4, Some (Inr (- 1)))"
  by (simp add: hm_eval)

section \<open>Freeing in the arena\<close>

text \<open>
  C3 (the reclaim half fails). In a fresh arena whose first region has its \<open>mem\<close> at
  \<open>0x10018\<close>, A (16 bytes) is allocated at \<open>0x10020\<close> and B (32 bytes) at \<open>0x10038\<close>.
  Freeing B lowers the offset by \<open>32 - 8\<close> instead of \<open>32 + 8\<close>, so the next allocation
  of 32 bytes is placed at \<open>0x10048\<close>, not at B's address.
\<close>

theorem free_top_then_alloc_moves:
  "(case arena_alloc (arena_zero, heap0) 16 of
      Inr (pa, s1) \<Rightarrow>
        (case arena_alloc s1 32 of
           Inr (pb, s2) \<Rightarrow>
             (case arena_free s2 pb of
                Inr s3 \<Rightarrow>
                  (case arena_alloc s3 32 of
                     Inr (pc, s4) \<Rightarrow> Some (pa, pb, pc, map offset (regions (fst s2)),
                                            map offset (regions (fst s3)))
                   | _ \<Rightarrow> None)
              | _ \<Rightarrow> None)
         | _ \<Rightarrow> None)
    | _ \<Rightarrow> None)
   = Some (0x10020, 0x10038, 0x10048, [64], [40])"
  by code_simp

text \<open>
  C5 (fails). A block of 8176 bytes and then an empty block fill the first region to its
  size, 8192. Freeing the empty block subtracts \<open>0 - 8\<close> in \<open>size_t\<close>, which adds 8: the
  offset becomes 8200 and exceeds the size.
\<close>

theorem free_small_block_breaks_offset_bound:
  "(case arena_alloc (arena_zero, heap0) 8176 of
      Inr (p, s1) \<Rightarrow>
        (case arena_alloc s1 0 of
           Inr (q, s2) \<Rightarrow>
             (case arena_free s2 q of
                Inr (a3, h3) \<Rightarrow> Some (map (\<lambda>r. (offset r, size_r r)) (regions (fst s2)),
                                       map (\<lambda>r. (offset r, size_r r)) (regions a3))
              | _ \<Rightarrow> None)
         | _ \<Rightarrow> None)
    | _ \<Rightarrow> None)
   = Some ([(8192, 8192)], [(8200, 8192)])"
  by code_simp

section \<open>Reallocating the top block\<close>

text \<open>
  C9 (fails). The first region is filled by a block of 8176 bytes, so the block \<open>x\<close> of
  100 bytes opens a second region, at \<open>0x12100\<close>, and is the block at its top: \<open>x\<close> plus
  its size is the region's \<open>mem\<close> plus offset, \<open>0x12184\<close>, and 8084 bytes of the region
  are left. An empty block \<open>q\<close> then fills the first region to its size, and
  \<open>arena_free(q)\<close> raises its offset to 8200 (the subtraction of C5). From there on
  \<open>size - offset\<close> of the first region wraps around, every request fits it, and
  \<open>arena_alloc(1000)\<close> moves its offset to 9208: the first region now claims the
  addresses up to \<open>0x12410\<close>, \<open>x\<close> among them. \<open>_arena_find_region\<close> returns the first region
  for \<open>x\<close>, whose top is not the end of \<open>x\<close>, and \<open>arena_realloc(x, 200)\<close> allocates a
  new block and returns \<open>0x12418\<close> instead of \<open>x = 0x12120\<close>.
\<close>

theorem realloc_of_top_block_moves:
  "(case arena_alloc (arena_zero, heap_near) 8176 of
      Inr (p, s1) \<Rightarrow>
        (case arena_alloc s1 100 of
           Inr (x, s2) \<Rightarrow>
             (case arena_alloc s2 0 of
                Inr (q, s3) \<Rightarrow>
                  (case arena_free s3 q of
                     Inr s4 \<Rightarrow>
                       (case arena_alloc s4 1000 of
                          Inr (y, s5) \<Rightarrow>
                            (case arena_realloc s5 x 200 of
                               Inr (x', s6) \<Rightarrow>
                                 Some (x, x + hsize (snd s5) (x - header_size),
                                       map (\<lambda>r. (region_mem r + offset r, size_r r - offset r))
                                         (regions (fst s2)),
                                       map (\<lambda>r. (region_mem r + offset r, size_r r, offset r))
                                         (regions (fst s5)),
                                       arena_find_region s5 x, x')
                             | _ \<Rightarrow> None)
                        | _ \<Rightarrow> None)
                   | _ \<Rightarrow> None)
              | _ \<Rightarrow> None)
         | _ \<Rightarrow> None)
    | _ \<Rightarrow> None)
   = Some (0x12120, 0x12184,
           [(0x12010, 8), (0x12184, 8084)],
           [(0x12410, 8192, 9208), (0x12184, 8192, 108)],
           Inr 0, 0x12418)"
  by code_simp

text \<open>
  What remains true is shown in the rest of the section: as long as every region has its
  offset within its size, the block at the top of a region is grown in place.
\<close>

lemma unat_region_mem: "region_fits r \<Longrightarrow> unat (region_mem r) = unat (base r) + 24"
  unfolding region_fits_def region_mem_def
  by (subst unat_add_lem [THEN iffD1]) simp_all

lemma unat_offset_le: "region_fits r \<Longrightarrow> unat (offset r) \<le> unat (size_r r)"
  by (simp add: region_fits_def word_le_nat_alt)

lemma unat_region_top: "region_fits r \<Longrightarrow> unat (region_mem r + offset r) = unat (base r) + 24 + unat (offset r)"
proof -
  assume f: "region_fits r"
  have "unat (region_mem r) + unat (offset r) < 2 ^ 64"
    using unat_region_mem [OF f] unat_offset_le [OF f] f by (simp add: region_fits_def)
  then have "unat (region_mem r + offset r) = unat (region_mem r) + unat (offset r)"
    by (subst unat_add_lem [THEN iffD1]) simp_all
  then show ?thesis by (simp add: unat_region_mem [OF f])
qed

lemma top_block_end:
  assumes "region_fits r" "top_block r h ptr"
  shows "unat (ptr + hsize h (ptr - header_size)) = unat (base r) + 24 + unat (offset r)"
    and "ptr + hsize h (ptr - header_size) = region_mem r + offset r"
proof -
  have lt: "unat ptr + unat (hsize h (ptr - header_size)) < 2 ^ 64"
    using assms unat_offset_le [OF assms(1)] unat_region_mem [OF assms(1)]
    by (simp add: top_block_def region_fits_def)
  have "unat (ptr + hsize h (ptr - header_size)) = unat ptr + unat (hsize h (ptr - header_size))"
    using lt by (subst unat_add_lem [THEN iffD1]) simp_all
  then show u: "unat (ptr + hsize h (ptr - header_size)) = unat (base r) + 24 + unat (offset r)"
    using assms unat_region_mem [OF assms(1)] by (simp add: top_block_def)
  show "ptr + hsize h (ptr - header_size) = region_mem r + offset r"
    using u unat_region_top [OF assms(1)] by (simp add: word_unat_eq_iff)
qed

lemma other_region_misses:
  assumes fr: "region_fits r" and fs: "region_fits s" and ap: "apart r s" and tb: "top_block r h ptr"
  shows "\<not> (ptr \<ge> region_mem s \<and> ptr + hsize h (ptr - header_size) \<le> region_mem s + offset s)"
proof -
  have e: "unat (ptr + hsize h (ptr - header_size)) = unat (base r) + 24 + unat (offset r)"
    by (rule top_block_end(1) [OF fr tb])
  have p1: "unat (base r) + 32 \<le> unat ptr"
    using tb unat_region_mem [OF fr] by (simp add: top_block_def)
  have p2: "unat ptr \<le> unat (base r) + 24 + unat (offset r)"
    using tb unat_region_mem [OF fr] by (simp add: top_block_def)
  show ?thesis
    using ap e p1 p2 unat_offset_le [OF fr] unat_offset_le [OF fs]
    by (auto simp: word_le_nat_alt unat_region_mem [OF fs] unat_region_top [OF fs] apart_def)
qed

lemma own_region_hits:
  assumes fr: "region_fits r" and tb: "top_block r h ptr"
  shows "ptr \<ge> region_mem r \<and> ptr + hsize h (ptr - header_size) \<le> region_mem r + offset r"
  using tb top_block_end(2) [OF fr tb] by (simp add: word_le_nat_alt top_block_def)

lemma apart_sym: "apart r s \<Longrightarrow> apart s r"
  by (auto simp: apart_def)

lemma blocks_disjoint_nth:
  "blocks_disjoint rs \<Longrightarrow> i < length rs \<Longrightarrow> j < length rs \<Longrightarrow> i \<noteq> j \<Longrightarrow> apart (rs ! i) (rs ! j)"
proof (induction rs arbitrary: i j)
  case Nil
  then show ?case by simp
next
  case (Cons r rs)
  show ?case
  proof (cases i)
    case 0
    then obtain j' where "j = Suc j'" using Cons.prems by (cases j) auto
    then show ?thesis using 0 Cons.prems by (auto simp: list_all_length)
  next
    case (Suc i')
    show ?thesis
    proof (cases j)
      case 0
      then show ?thesis using Suc Cons.prems by (auto simp: list_all_length intro: apart_sym)
    next
      case (Suc j')
      then show ?thesis using \<open>i = Suc i'\<close> Cons.prems Cons.IH [of i' j'] by auto
    qed
  qed
qed

lemma find_region_loop_top:
  assumes "list_all region_fits rs" "blocks_disjoint rs" "i < length rs" "top_block (rs ! i) h ptr"
  shows "find_region_loop rs ptr (ptr + hsize h (ptr - header_size)) = Some i"
  using assms
proof (induction rs arbitrary: i)
  case Nil
  then show ?case by simp
next
  case (Cons r rs)
  show ?case
  proof (cases i)
    case 0
    then show ?thesis using Cons.prems own_region_hits [of r h ptr] by simp
  next
    case (Suc i')
    have ap: "apart (rs ! i') r"
      using blocks_disjoint_nth [of "r # rs" i 0] Cons.prems Suc by simp
    have fr: "region_fits r" and fi: "region_fits (rs ! i')"
      using Cons.prems Suc by (auto simp: list_all_iff)
    have tb: "top_block (rs ! i') h ptr"
      using Cons.prems Suc by simp
    have miss: "\<not> (ptr \<ge> region_mem r \<and> ptr + hsize h (ptr - header_size) \<le> region_mem r + offset r)"
      by (rule other_region_misses [OF fi fr ap tb])
    have "find_region_loop rs ptr (ptr + hsize h (ptr - header_size)) = Some i'"
      using Cons.IH [of i'] Cons.prems Suc by simp
    then show ?thesis using miss Suc by simp
  qed
qed

text \<open>
  Let \<open>ptr\<close> be the block at the top of region \<open>i\<close> of an arena whose regions lie apart
  and have their offsets within their sizes, let the new size exceed the size stored in
  the header, and let the growth fit into what is left of the region. Then
  \<open>arena_realloc\<close> returns \<open>ptr\<close> itself; the header holds the new size, the offset of
  region \<open>i\<close> has advanced by the growth, and nothing else has changed.
\<close>

lemma realloc_in_place_when_offsets_fit:
  assumes wf: "arena_wf a"
    and i: "i < length (regions a)"
    and top: "top_block (regions a ! i) h ptr"
    and grow: "hsize h (ptr - header_size) < sz"
    and room: "sz - hsize h (ptr - header_size) \<le> size_r (regions a ! i) - offset (regions a ! i)"
  shows "arena_realloc (a, h) ptr sz =
           Inr (ptr,
                a\<lparr>regions := (regions a)[i := (regions a ! i)
                     \<lparr>offset := offset (regions a ! i) + (sz - hsize h (ptr - header_size))\<rparr>]\<rparr>,
                h\<lparr>hsize := (hsize h)(ptr - header_size := sz)\<rparr>)"
proof -
  have fits: "region_fits (regions a ! i)"
    using wf i by (simp add: arena_wf_def list_all_length)
  have nz: "ptr \<noteq> 0"
    using top by (auto simp: top_block_def)
  have find: "arena_find_region (a, h) ptr = Inr i"
    using find_region_loop_top [of "regions a" i h ptr] wf i top
    by (simp add: arena_find_region_def arena_wf_def)
  have e: "ptr + hsize h (ptr - header_size) = region_mem (regions a ! i) + offset (regions a ! i)"
    by (rule top_block_end(2) [OF fits top])
  have ng: "\<not> sz \<le> hsize h (ptr - header_size)"
    using grow by simp
  show ?thesis
    using nz find e ng room by (simp add: arena_realloc_def Let_def)
qed

lemma arena1_is_first_alloc:
  "(case arena_alloc (arena_zero, heap0) 16 of
      Inr (p, a, h) \<Rightarrow> p = 0x10020 \<and> a = arena1 \<and> hsize h = hsize heap1 \<and> backend h = backend heap1
    | Inl e \<Rightarrow> False)"
  by (simp add: arena_alloc_def arena_zero_def heap0_def arena_init_def arena_append_region_def
      ARENA_DEFAULT_CAPACITY_def region_struct_size_def header_size_def bump_def region_mem_def
      arena1_def heap1_def Let_def fun_eq_iff)

lemma realloc_in_place_first_block:
  "arena_wf arena1 \<and> 0 < length (regions arena1) \<and> top_block (regions arena1 ! 0) heap1 0x10020
   \<and> hsize heap1 (0x10020 - header_size) < 100
   \<and> 100 - hsize heap1 (0x10020 - header_size) \<le> size_r (regions arena1 ! 0) - offset (regions arena1 ! 0)
   \<and> arena_realloc (arena1, heap1) 0x10020 100 =
       Inr (0x10020,
            arena1\<lparr>regions := [\<lparr>size_r = 8192, offset = 108, base = 0x10000\<rparr>]\<rparr>,
            heap1\<lparr>hsize := (hsize heap1)(0x10018 := 100)\<rparr>)"
proof -
  have wf: "arena_wf arena1"
    by (simp add: arena_wf_def arena1_def region_fits_def)
  have i: "0 < length (regions arena1)"
    by (simp add: arena1_def)
  have top: "top_block (regions arena1 ! 0) heap1 0x10020"
    by (simp add: top_block_def arena1_def heap1_def region_mem_def header_size_def)
  have grow: "hsize heap1 (0x10020 - header_size) < 100"
    by (simp add: heap1_def header_size_def)
  have room: "100 - hsize heap1 (0x10020 - header_size)
                \<le> size_r (regions arena1 ! 0) - offset (regions arena1 ! 0)"
    by (simp add: heap1_def header_size_def arena1_def)
  show ?thesis
    using wf i top grow room realloc_in_place_when_offsets_fit [OF wf i top grow room]
    by (simp add: heap1_def header_size_def arena1_def)
qed

section \<open>Indices as machine words\<close>

lemma unat_and_mask64: "unat (w AND (2 ^ k - 1 :: 64 word)) = unat w mod 2 ^ k"
proof -
  have "w AND (2 ^ k - 1) = take_bit k w"
    by (simp add: take_bit_eq_mask mask_eq_decr_exp)
  then have "unat (w AND (2 ^ k - 1)) = take_bit k (unat w)"
    by (simp only: unsigned_take_bit_eq)
  then show ?thesis by (simp only: take_bit_eq_mod)
qed

lemma unat_of_nat64: "i < 2 ^ k \<Longrightarrow> k \<le> 64 \<Longrightarrow> unat (of_nat i :: 64 word) = i"
proof -
  assume a: "i < 2 ^ k" "k \<le> 64"
  have "(2::nat) ^ k \<le> 2 ^ 64" using a(2) by (rule power_increasing) simp
  then have "i < 2 ^ 64" using a(1) by simp
  then show ?thesis by (simp add: unat_of_nat)
qed

lemma unat_exp64: "k < 64 \<Longrightarrow> unat (2 ^ k :: 64 word) = 2 ^ k"
proof -
  assume "k < 64"
  then have "(2::nat) ^ k < 2 ^ 64" by (intro power_strict_increasing) simp_all
  moreover have "unat (2 ^ k :: 64 word) = 2 ^ k mod 2 ^ 64"
    using unat_of_nat [of "2 ^ k", where 'a = 64] by simp
  ultimately show ?thesis by simp
qed

lemma next_index:
  assumes "k < 64" "i < 2 ^ k"
  shows "(of_nat i + 1) AND (2 ^ k - 1 :: 64 word) = of_nat ((i + 1) mod 2 ^ k)"
proof -
  have s: "of_nat i + 1 = (of_nat (Suc i) :: 64 word)" by simp
  have u: "unat (of_nat (Suc i) :: 64 word) = Suc i mod 2 ^ 64"
    using unat_of_nat [of "Suc i", where 'a = 64] by simp
  have "unat ((of_nat i + 1) AND (2 ^ k - 1 :: 64 word)) = (Suc i mod 2 ^ 64) mod 2 ^ k"
    by (simp only: s unat_and_mask64 u)
  also have "\<dots> = Suc i mod 2 ^ k"
  proof -
    have "(2::nat) ^ k dvd 2 ^ 64"
      using assms(1) by (intro le_imp_power_dvd) simp
    then show ?thesis by (rule mod_mod_cancel)
  qed
  finally have "unat ((of_nat i + 1) AND (2 ^ k - 1 :: 64 word)) = (i + 1) mod 2 ^ k" by simp
  moreover have "unat (of_nat ((i + 1) mod 2 ^ k) :: 64 word) = (i + 1) mod 2 ^ k"
    using assms by (intro unat_of_nat64 [of _ k]) simp_all
  ultimately show ?thesis by (simp add: word_unat_eq_iff)
qed

lemma sint_of_nat64: "i < 2 ^ k \<Longrightarrow> k \<le> 63 \<Longrightarrow> sint (of_nat i :: 64 word) = int i"
proof -
  assume a: "i < 2 ^ k" "k \<le> 63"
  have "(2::nat) ^ k \<le> 2 ^ 63" using a(2) by (rule power_increasing) simp
  then have "i < 2 ^ 63" using a(1) by simp
  then have "int i < 2 ^ 63" by (metis of_nat_less_iff of_nat_numeral of_nat_power)
  then show ?thesis by (simp add: signed_of_nat signed_take_bit_int_eq_self)
qed

section \<open>The lookup loop\<close>

lemma probe_slots_0: "probe_slots cap h 0 = []"
  by (simp add: probe_slots_def)

lemma probe_slots_Suc: "probe_slots cap h (Suc n) = (h mod cap) # probe_slots cap ((h + 1) mod cap) n"
proof -
  have "[0..<Suc n] = 0 # map Suc [0..<n]"
    by (simp add: upt_conv_Cons map_Suc_upt del: upt_Suc)
  then show ?thesis
    by (simp add: probe_slots_def comp_def mod_add_left_eq del: upt_Suc)
qed

lemma lookup_loop_spec:
  assumes k: "k \<le> 63" and len: "length xs = 2 ^ k" and mc: "unat mc < 2 ^ 32 - 1"
  shows "i < 2 ^ k \<Longrightarrow> unat mc + 1 - unat col = m \<Longrightarrow>
         lookup_loop xs (2 ^ k - 1) mc mem str n (of_nat i) col =
           Some (Inr (case find (\<lambda>j. slot_hit mem str n (xs ! j)) (probe_slots (2 ^ k) i m) of
                        None \<Rightarrow> - 1 | Some j \<Rightarrow> int j))"
proof (induction m arbitrary: i col)
  case 0
  then have "\<not> col \<le> mc" by (simp add: word_le_nat_alt)
  then show ?case
    by (subst lookup_loop.simps) (simp add: probe_slots_0)
next
  case (Suc m)
  have le: "col \<le> mc" using Suc.prems by (simp add: word_le_nat_alt)
  have ui: "unat (of_nat i :: 64 word) = i"
    using Suc.prems k by (intro unat_of_nat64 [of _ k]) simp_all
  have imod: "i mod 2 ^ k = i" using Suc.prems by simp
  show ?case
  proof (cases "slot_hit mem str n (xs ! i)")
    case True
    have "sint (of_nat i :: 64 word) = int i"
      using Suc.prems k by (intro sint_of_nat64 [of _ k]) simp_all
    then show ?thesis
      using True le ui len Suc.prems
      by (subst lookup_loop.simps) (simp add: probe_slots_Suc imod slot_hit_def)
  next
    case False
    have c1: "unat (col + 1) = unat col + 1"
      using le mc by (subst unat_add_lem [THEN iffD1]) (simp_all add: word_le_nat_alt)
    have nx: "(of_nat i + 1) AND (2 ^ k - 1 :: 64 word) = of_nat ((i + 1) mod 2 ^ k)"
      using k Suc.prems by (intro next_index) simp_all
    have ih: "lookup_loop xs (2 ^ k - 1) mc mem str n (of_nat ((i + 1) mod 2 ^ k)) (col + 1) =
           Some (Inr (case find (\<lambda>j. slot_hit mem str n (xs ! j)) (probe_slots (2 ^ k) ((i + 1) mod 2 ^ k) m) of
                        None \<Rightarrow> - 1 | Some j \<Rightarrow> int j))"
      using Suc.prems c1 by (intro Suc.IH) simp_all
    have nh: "(used (meta (xs ! i)) \<noteq> 0 \<and> mem (key (meta (xs ! i))) = mem str \<and> len (meta (xs ! i)) = n
              \<and> key_bytes mem str n = key_bytes mem (key (meta (xs ! i))) n) = False"
      using False by (simp add: slot_hit_def)
    show ?thesis
      apply (subst lookup_loop.simps)
      apply (simp only: le ui len nx ih nh if_True if_False)
      using Suc.prems(1) False apply (simp add: probe_slots_Suc imod)
      done
  qed
qed

lemma hashmap_lookup_spec:
  assumes k: "k \<le> 63" and len: "length xs = 2 ^ k" and cap: "cap = 2 ^ k" and mc: "mc \<noteq> - 1"
  shows "hashmap_lookup (Some xs) cap mc mem str n = Some (Inr (lookup_spec xs cap mc mem str n))"
proof -
  have mc': "unat mc < 2 ^ 32 - 1"
  proof -
    have "unat (- 1 :: 32 word) = 2 ^ 32 - 1"
      by (simp add: unsigned_minus_1_eq_mask mask_eq_exp_minus_1)
    then have "unat mc \<noteq> 2 ^ 32 - 1" using mc by (metis word_unat_eq_iff)
    moreover have "unat mc < 2 ^ 32" using unsigned_less [of mc] by simp
    ultimately show ?thesis by simp
  qed
  have capn: "unat cap = 2 ^ k" using k cap by (simp add: unat_exp64)
  define h where "h = unat (hashmap_hash mem str n AND (cap - 1))"
  have hlt: "h < 2 ^ k" unfolding h_def cap by (simp add: unat_and_mask64)
  have sp: "lookup_spec xs cap mc mem str n =
      (case find (\<lambda>j. slot_hit mem str n (xs ! j)) (probe_slots (2 ^ k) h (unat mc + 1)) of
         None \<Rightarrow> - 1 | Some j \<Rightarrow> int j)"
    by (simp add: lookup_spec_def capn h_def)
  have lo: "hashmap_lookup (Some xs) cap mc mem str n =
      lookup_loop xs (2 ^ k - 1) mc mem str n (of_nat h) 0"
    by (simp add: hashmap_lookup_def Let_def cap h_def)
  have "unat mc + 1 - unat (0 :: 32 word) = unat mc + 1" by simp
  then show ?thesis
    unfolding sp lo by (rule lookup_loop_spec [OF k len mc' hlt])
qed

section \<open>The load-factor test on naturals\<close>












section \<open>The probe loop of the insertion\<close>

lemma put_probe_steps:
  assumes k: "k < 64" and len: "length xs = 2 ^ k"
  shows "i < 2 ^ k \<Longrightarrow>
     (\<forall>j<d. used (meta (xs ! ((i + j) mod 2 ^ k))) \<noteq> 0
             \<and> \<not> hashmap_match_item mem kt (meta (xs ! ((i + j) mod 2 ^ k))) kb kl) \<Longrightarrow>
     used (meta (xs ! ((i + d) mod 2 ^ k))) = 0
       \<or> hashmap_match_item mem kt (meta (xs ! ((i + d) mod 2 ^ k))) kb kl \<Longrightarrow>
     put_probe xs (2 ^ k - 1) mem kt kb kl (of_nat i) c =
       Some (Inr (of_nat ((i + d) mod 2 ^ k), c + of_nat d))"
proof (induction d arbitrary: i c)
  case 0
  have ui: "unat (of_nat i :: 64 word) = i"
    using 0(1) k by (intro unat_of_nat64 [of _ k]) simp_all
  show ?case
    using 0 by (subst put_probe.simps) (auto simp: ui len)
next
  case (Suc d)
  have ui: "unat (of_nat i :: 64 word) = i"
    using Suc.prems(1) k by (intro unat_of_nat64 [of _ k]) simp_all
  have here: "used (meta (xs ! i)) \<noteq> 0" "\<not> hashmap_match_item mem kt (meta (xs ! i)) kb kl"
    using Suc.prems(2) [rule_format, of 0] Suc.prems(1) by simp_all
  have nx: "(of_nat i + 1) AND (2 ^ k - 1 :: 64 word) = of_nat ((i + 1) mod 2 ^ k)"
    using k Suc.prems(1) by (intro next_index) simp_all
  have sh: "((i + 1) mod 2 ^ k + j) mod 2 ^ k = (i + Suc j) mod 2 ^ k" for j
    by (simp add: mod_add_left_eq)
  have later: "used (meta (xs ! (((i + 1) mod 2 ^ k + j) mod 2 ^ k))) \<noteq> 0
             \<and> \<not> hashmap_match_item mem kt (meta (xs ! (((i + 1) mod 2 ^ k + j) mod 2 ^ k))) kb kl"
    if "j < d" for j
  proof -
    have "Suc j < Suc d" using that by simp
    from Suc.prems(2) [rule_format, OF this] show ?thesis unfolding sh .
  qed
  have ih: "put_probe xs (2 ^ k - 1) mem kt kb kl (of_nat ((i + 1) mod 2 ^ k)) (c + 1) =
       Some (Inr (of_nat (((i + 1) mod 2 ^ k + d) mod 2 ^ k), (c + 1) + of_nat d))"
  proof (rule Suc.IH)
    show "(i + 1) mod 2 ^ k < 2 ^ k" by simp
    show "\<forall>j<d. used (meta (xs ! (((i + 1) mod 2 ^ k + j) mod 2 ^ k))) \<noteq> 0
             \<and> \<not> hashmap_match_item mem kt (meta (xs ! (((i + 1) mod 2 ^ k + j) mod 2 ^ k))) kb kl"
      using later by blast
    show "used (meta (xs ! (((i + 1) mod 2 ^ k + d) mod 2 ^ k))) = 0
       \<or> hashmap_match_item mem kt (meta (xs ! (((i + 1) mod 2 ^ k + d) mod 2 ^ k))) kb kl"
      using Suc.prems(3) unfolding sh .
  qed
  show ?case
    apply (subst put_probe.simps)
    apply (simp only: ui len Suc.prems(1) here nx ih if_True if_False not_False_eq_True sh)
    apply simp
    done
qed

lemma item_overwrite: "it\<lparr>data := v, meta := m\<rparr> = \<lparr>meta = m, data = v\<rparr>"
  by (cases it) simp


lemma put_nogrow_insert:
  assumes k: "k < 64" and its: "items hm = Some xs" and len: "length xs = 2 ^ k"
    and cap: "capacity hm = 2 ^ k" and room: "count hm < capacity hm"
    and h: "h = unat (hashmap_hash mem kb kl AND (capacity hm - 1))"
    and chain: "\<forall>j<d. used (meta (xs ! ((h + j) mod 2 ^ k))) \<noteq> 0
             \<and> \<not> hashmap_match_item mem kt (meta (xs ! ((h + j) mod 2 ^ k))) kb kl"
    and free: "used (meta (xs ! ((h + d) mod 2 ^ k))) = 0"
  shows "hashmap_put_nogrow hm mem kt v kb kl =
           Some (Inr (hm\<lparr>items := Some (xs[(h + d) mod 2 ^ k :=
                                 \<lparr>meta = \<lparr>key = kb, len = kl, used = 1\<rparr>, data = v\<rparr>]),
                           count := count hm + 1,
                           maxcol := (if maxcol hm < of_nat d then of_nat d else maxcol hm)\<rparr>))"
proof -
  have hlt: "h < 2 ^ k" unfolding h cap by (simp add: unat_and_mask64)
  have hw: "hashmap_hash mem kb kl AND (2 ^ k - 1) = of_nat h" by (simp add: h cap)
  have pr: "put_probe xs (2 ^ k - 1) mem kt kb kl (of_nat h) 0 =
       Some (Inr (of_nat ((h + d) mod 2 ^ k), 0 + of_nat d))"
    using hlt chain free by (intro put_probe_steps [OF k len]) simp_all
  have ui: "unat (of_nat ((h + d) mod 2 ^ k) :: 64 word) = (h + d) mod 2 ^ k"
    using k by (intro unat_of_nat64 [of _ k]) simp_all
  have nr: "\<not> (2 ^ k :: 64 word) \<le> count hm"
    using room by (simp add: cap)
  show ?thesis
    using free
    by (simp add: hashmap_put_nogrow_def its cap hw pr then_res_def Let_def ui len nr item_overwrite)
qed


section \<open>Keys, entries and home slots\<close>

lemma match_unsigned:
  "hashmap_match_item mem Unsigned_char m kb kl \<longleftrightarrow>
     mem kb = mem (key m) \<and> kl = len m \<and> key_bytes mem kb kl = key_bytes mem (key m) kl"
  by (simp add: hashmap_match_item_def first_char_def word_uint_eq_iff)

lemma sint_nonneg_uint: "0 \<le> sint (b :: 8 word) \<Longrightarrow> sint b = uint b"
proof -
  assume "0 \<le> sint b"
  then have "\<not> bit b 7" using bit_last_iff [of b] by simp
  then have nb: "\<not> bit (uint b) 7" by (simp add: bit_uint_iff)
  then have "signed_take_bit 7 (uint b) = take_bit 7 (uint b)"
    by (rule signed_take_bit_eq_if_positive)
  moreover have "sint b = signed_take_bit 7 (uint b)" by (simp add: sint_uint)
  moreover have "take_bit (Suc 7) (uint b) = take_bit 7 (uint b)"
    using nb take_bit_Suc_from_most [of 7 "uint b"] by simp
  moreover have "take_bit (Suc 7) (uint b) = uint b"
    using uint_lt2p [of b] by (simp add: take_bit_int_eq_self)
  ultimately show ?thesis by simp
qed

lemma sint_eq_uint_byte: "sint (b :: 8 word) = uint (c :: 8 word) \<Longrightarrow> b = c"
proof -
  assume a: "sint b = uint c"
  then have "0 \<le> sint b" by simp
  then have "sint b = uint b" by (rule sint_nonneg_uint)
  then show "b = c" using a by (simp add: word_uint_eq_iff)
qed

lemma match_imp_unsigned:
  "hashmap_match_item mem kt m kb kl \<Longrightarrow> hashmap_match_item mem Unsigned_char m kb kl"
  by (cases kt) (auto simp: hashmap_match_item_def first_char_def word_uint_eq_iff dest: sint_eq_uint_byte)

lemma slot_hit_iff:
  "slot_hit mem str n e \<longleftrightarrow> used (meta e) \<noteq> 0 \<and> hashmap_match_item mem Unsigned_char (meta e) str n"
  by (auto simp: slot_hit_def match_unsigned)

lemma match_entry [simp]:
  "hashmap_match_item mem Unsigned_char (meta (entry k l v)) k2 l2 = same_key mem k l k2 l2"
  by (simp add: entry_def same_key_def)

lemma match_entry_imp:
  "hashmap_match_item mem kt (meta (entry k l v)) k2 l2 \<Longrightarrow> same_key mem k l k2 l2"
  using match_imp_unsigned [of mem kt "meta (entry k l v)" k2 l2] by simp

lemma used_entry [simp]: "used (meta (entry k l v)) = 1" "data (entry k l v) = v"
  by (simp_all add: entry_def)

lemma same_key_refl [simp]: "same_key mem k l k l"
  by (simp add: same_key_def match_unsigned)

lemma home_slot_less: "k < 64 \<Longrightarrow> home_slot mem (2 ^ k) kb kl < 2 ^ k"
  by (simp add: home_slot_def unat_and_mask64)

lemma home_slot_less_8: "home_slot mem 8 kb kl < 8"
  using home_slot_less [of 3 mem kb kl] by simp

lemma load_small [simp]:
  "\<not> load_factor_ge_07 0 8" "\<not> load_factor_ge_07 1 8" "\<not> load_factor_ge_07 2 8"
  "\<not> load_factor_ge_07 3 8" "\<not> load_factor_ge_07 4 8" "\<not> load_factor_ge_07 5 8"
  "load_factor_ge_07 6 8"
  by (simp_all add: load_factor_ge_07_def u64_to_double_def)

lemma succ_slot_neq: "h < 8 \<Longrightarrow> (h + 1) mod 8 \<noteq> (h::nat)"
  by arith

section \<open>Two colliding keys and the removal of the first\<close>

lemma put_first:
  "hashmap_put (hashmap_init hashmap_zero) mem kt va ka la =
     Some (Inr \<lparr>count = 1, index = 0, capacity = 8, maxcol = 0,
                items = Some ((replicate 8 zero_item)[home_slot mem 8 ka la := entry ka la va])\<rparr>)"
proof -
  define hm :: "'a hashmap" where "hm = hashmap_init hashmap_zero"
  define h where "h = home_slot mem 8 ka la"
  have hm: "hm = \<lparr>count = 0, index = 0, capacity = 8, maxcol = 0, items = Some (replicate 8 zero_item)\<rparr>"
    by (simp add: hm_def hashmap_init_def hashmap_init_cap_def hashmap_zero_def HASHMAP_CAP_DEFAULT_def)
  have h8: "h < 8" unfolding h_def by (rule home_slot_less_8)
  have "hashmap_put_nogrow hm mem kt va ka la =
      Some (Inr (hm\<lparr>items := Some ((replicate 8 zero_item)[(h + 0) mod 2 ^ 3 :=
                                 \<lparr>meta = \<lparr>key = ka, len = la, used = 1\<rparr>, data = va\<rparr>]),
                           count := count hm + 1,
                           maxcol := (if maxcol hm < of_nat 0 then of_nat 0 else maxcol hm)\<rparr>))"
    using h8
    by (intro put_nogrow_insert) (simp_all add: hm h_def home_slot_def zero_item_def)
  then show ?thesis
    using h8 by (simp add: hashmap_put_def hm_def [symmetric] hm h_def [symmetric] entry_def)
qed

lemma put_second:
  assumes col: "home_slot mem 8 kb lb = home_slot mem 8 ka la"
    and ne: "\<not> same_key mem ka la kb lb"
  shows "hashmap_put \<lparr>count = 1, index = 0, capacity = 8, maxcol = 0,
                items = Some ((replicate 8 zero_item)[home_slot mem 8 ka la := entry ka la va])\<rparr>
           mem kt vb kb lb = Some (Inr (collided_pair mem va ka la vb kb lb))"
proof -
  define h where "h = home_slot mem 8 ka la"
  define xs :: "'a item list" where "xs = (replicate 8 zero_item)[h := entry ka la va]"
  define hm :: "'a hashmap" where "hm = \<lparr>count = 1, index = 0, capacity = 8, maxcol = 0, items = Some xs\<rparr>"
  have h8: "h < 8" unfolding h_def by (rule home_slot_less_8)
  have nq: "(h + 1) mod 8 \<noteq> h" using h8 by (rule succ_slot_neq)
  have "hashmap_put_nogrow hm mem kt vb kb lb =
      Some (Inr (hm\<lparr>items := Some (xs[(h + 1) mod 2 ^ 3 :=
                                 \<lparr>meta = \<lparr>key = kb, len = lb, used = 1\<rparr>, data = vb\<rparr>]),
                           count := count hm + 1,
                           maxcol := (if maxcol hm < of_nat 1 then of_nat 1 else maxcol hm)\<rparr>))"
  proof (rule put_nogrow_insert)
    show "(3::nat) < 64" by simp
    show "items hm = Some xs" by (simp add: hm_def)
    show "length xs = 2 ^ 3" by (simp add: xs_def)
    show "capacity hm = 2 ^ 3" by (simp add: hm_def)
    show "count hm < capacity hm" by (simp add: hm_def word_less_nat_alt)
    show "h = unat (hashmap_hash mem kb lb AND (capacity hm - 1))"
      using col by (simp add: hm_def h_def home_slot_def)
    show "\<forall>j<1. used (meta (xs ! ((h + j) mod 2 ^ 3))) \<noteq> 0
             \<and> \<not> hashmap_match_item mem kt (meta (xs ! ((h + j) mod 2 ^ 3))) kb lb"
      using h8 ne match_entry_imp [of mem kt ka la va kb lb] by (auto simp: xs_def)
    show "used (meta (xs ! ((h + 1) mod 2 ^ 3))) = 0"
      using h8 nq by (simp add: xs_def zero_item_def)
  qed
  then show ?thesis
    by (simp add: hashmap_put_def hm_def [symmetric] xs_def [symmetric] h_def [symmetric]
        collided_pair_def Let_def entry_def) (simp add: hm_def xs_def entry_def)
qed

lemma probe_slots_2: "h < cap \<Longrightarrow> probe_slots cap h 2 = [h, (h + 1) mod cap]"
  by (simp add: probe_slots_def upt_conv_Cons)

lemma slot_hit_entry [simp]: "slot_hit mem k2 l2 (entry k l v) = same_key mem k l k2 l2"
  by (simp add: slot_hit_iff)

lemma remove_first:
  "hashmap_remove (collided_pair mem va ka la vb kb lb) mem ka la =
     Some (Inr (collided_pair_removed mem va ka la vb kb lb))"
proof -
  define h where "h = home_slot mem 8 ka la"
  define xs :: "'a item list" where
    "xs = (replicate 8 zero_item)[h := entry ka la va, (h + 1) mod 8 := entry kb lb vb]"
  have h8: "h < 8" unfolding h_def by (rule home_slot_less_8)
  have nq: "(h + 1) mod 8 \<noteq> h" using h8 by (rule succ_slot_neq)
  have cp: "collided_pair mem va ka la vb kb lb =
      \<lparr>count = 2, index = 0, capacity = 8, maxcol = 1, items = Some xs\<rparr>"
    by (simp add: collided_pair_def Let_def h_def xs_def)
  have at_h: "xs ! h = entry ka la va" using h8 nq by (simp add: xs_def)
  have "hashmap_lookup (Some xs) 8 1 mem ka la = Some (Inr (lookup_spec xs 8 1 mem ka la))"
    by (rule hashmap_lookup_spec [of 3]) (simp_all add: xs_def)
  moreover have "lookup_spec xs 8 1 mem ka la =
      (case find (\<lambda>i. slot_hit mem ka la (xs ! i)) (probe_slots 8 h 2) of
         None \<Rightarrow> - 1 | Some i \<Rightarrow> int i)"
  proof -
    have "unat (8 :: 64 word) = 8" "unat (1 :: 32 word) + 1 = 2"
      "unat (hashmap_hash mem ka la AND (8 - 1)) = h"
      by (simp_all add: h_def home_slot_def)
    then show ?thesis by (simp only: lookup_spec_def)
  qed
  moreover have "\<dots> = int h"
    using h8 by (simp add: probe_slots_2 at_h)
  ultimately have lk: "hashmap_lookup (Some xs) 8 1 mem ka la = Some (Inr (int h))" by simp
  have lenxs: "length xs = 8" by (simp add: xs_def)
  have rm: "hashmap_remove \<lparr>count = 2, index = 0, capacity = 8, maxcol = 1, items = Some xs\<rparr> mem ka la =
      Some (Inr \<lparr>count = 1, index = 0, capacity = 8, maxcol = 1,
                 items = Some (xs[h := (entry ka la va)\<lparr>meta := \<lparr>key = ka, len = la, used = 0\<rparr>\<rparr>])\<rparr>)"
    using h8 by (simp add: hashmap_remove_def hashmap_index_var_def lk then_res_def lenxs at_h entry_def)
  have "xs[h := (entry ka la va)\<lparr>meta := \<lparr>key = ka, len = la, used = 0\<rparr>\<rparr>] =
      (replicate 8 zero_item)
                [h := (entry ka la va)\<lparr>meta := \<lparr>key = ka, len = la, used = 0\<rparr>\<rparr>,
                 (h + 1) mod 8 := entry kb lb vb]"
  proof -
    have "Suc h mod 8 \<noteq> h" using nq by simp
    then show ?thesis unfolding xs_def by (simp add: list_update_swap)
  qed
  then show ?thesis
    by (simp add: cp rm collided_pair_removed_def Let_def h_def [symmetric])
qed

lemma lookup_after_gap:
  assumes col: "home_slot mem 8 kb lb = home_slot mem 8 ka la"
    and ne: "\<not> same_key mem ka la kb lb"
  shows "hashmap_lookup (items (collided_pair_removed mem va ka la vb kb lb))
           (capacity (collided_pair_removed mem va ka la vb kb lb))
           (maxcol (collided_pair_removed mem va ka la vb kb lb)) mem kb lb
         = Some (Inr (int ((home_slot mem 8 ka la + 1) mod 8)))"
proof -
  define h where "h = home_slot mem 8 ka la"
  define xs :: "'a item list" where
    "xs = (replicate 8 zero_item)
                [h := (entry ka la va)\<lparr>meta := \<lparr>key = ka, len = la, used = 0\<rparr>\<rparr>,
                 (h + 1) mod 8 := entry kb lb vb]"
  have h8: "h < 8" unfolding h_def by (rule home_slot_less_8)
  have nq: "(h + 1) mod 8 \<noteq> h" using h8 by (rule succ_slot_neq)
  have cp: "collided_pair_removed mem va ka la vb kb lb =
      \<lparr>count = 1, index = 0, capacity = 8, maxcol = 1, items = Some xs\<rparr>"
    by (simp add: collided_pair_removed_def Let_def h_def xs_def)
  have at_h: "\<not> slot_hit mem kb lb (xs ! h)" using h8 nq by (simp add: xs_def slot_hit_def)
  have at_n: "xs ! ((h + 1) mod 8) = entry kb lb vb" using h8 by (simp add: xs_def)
  have "hashmap_lookup (Some xs) 8 1 mem kb lb = Some (Inr (lookup_spec xs 8 1 mem kb lb))"
    by (rule hashmap_lookup_spec [of 3]) (simp_all add: xs_def)
  moreover have "lookup_spec xs 8 1 mem kb lb =
      (case find (\<lambda>i. slot_hit mem kb lb (xs ! i)) (probe_slots 8 h 2) of
         None \<Rightarrow> - 1 | Some i \<Rightarrow> int i)"
  proof -
    have "unat (8 :: 64 word) = 8" "unat (1 :: 32 word) + 1 = 2"
      "unat (hashmap_hash mem kb lb AND (8 - 1)) = h"
      using col by (simp_all add: h_def home_slot_def)
    then show ?thesis by (simp only: lookup_spec_def)
  qed
  moreover have "\<dots> = int ((h + 1) mod 8)"
  proof -
    have "slot_hit mem kb lb (xs ! ((h + 1) mod 8))" unfolding at_n by simp
    then show ?thesis using h8 at_h by (simp add: probe_slots_2)
  qed
  ultimately show ?thesis by (simp add: cp h_def)
qed

lemma removal_gap_steps:
  assumes col: "home_slot mem 8 kb lb = home_slot mem 8 ka la"
    and ne: "\<not> same_key mem ka la kb lb"
  shows "put_all (hashmap_init hashmap_zero) mem kt [(va, ka, la), (vb, kb, lb)]
           = Some (Inr (collided_pair mem va ka la vb kb lb))"
    and "hashmap_remove (collided_pair mem va ka la vb kb lb) mem ka la
           = Some (Inr (collided_pair_removed mem va ka la vb kb lb))"
    and "hashmap_contains (collided_pair_removed mem va ka la vb kb lb) mem kb lb
           = Some (Inr (True, (collided_pair_removed mem va ka la vb kb lb)
                                \<lparr>index := int ((home_slot mem 8 ka la + 1) mod 8)\<rparr>))"
    and "hashmap_get (collided_pair_removed mem va ka la vb kb lb) mem kb lb
           = Some (Inr (vb, (collided_pair_removed mem va ka la vb kb lb)
                                \<lparr>index := int ((home_slot mem 8 ka la + 1) mod 8)\<rparr>))"
proof -
  show "put_all (hashmap_init hashmap_zero) mem kt [(va, ka, la), (vb, kb, lb)]
           = Some (Inr (collided_pair mem va ka la vb kb lb))"
    by (simp add: put_first put_second [OF col ne] then_res_def)
  show "hashmap_remove (collided_pair mem va ka la vb kb lb) mem ka la
           = Some (Inr (collided_pair_removed mem va ka la vb kb lb))"
    by (rule remove_first)
  show "hashmap_contains (collided_pair_removed mem va ka la vb kb lb) mem kb lb
           = Some (Inr (True, (collided_pair_removed mem va ka la vb kb lb)
                                \<lparr>index := int ((home_slot mem 8 ka la + 1) mod 8)\<rparr>))"
    by (simp add: hashmap_contains_def lookup_after_gap [OF col ne] then_res_def)
  have h8: "home_slot mem 8 ka la < 8" by (rule home_slot_less_8)
  have "hashmap_at (collided_pair_removed mem va ka la vb kb lb)
          (int ((home_slot mem 8 ka la + 1) mod 8)) = Inr vb"
    using h8 by (simp add: hashmap_at_def collided_pair_removed_def Let_def)
  then show "hashmap_get (collided_pair_removed mem va ka la vb kb lb) mem kb lb
           = Some (Inr (vb, (collided_pair_removed mem va ka la vb kb lb)
                                \<lparr>index := int ((home_slot mem 8 ka la + 1) mod 8)\<rparr>))"
    by (simp add: hashmap_get_def lookup_after_gap [OF col ne] then_res_def)
qed

text \<open>
  C8. Let A and B be two different keys with the same hash-derived slot in a table of
  capacity 8. Putting A and then B into a fresh table leaves A in the home slot and B one
  slot further (\<open>collided_pair\<close>); removing A clears the used flag of the home slot and
  decrements the count (\<open>collided_pair_removed\<close>); after that \<open>hashmap_contains\<close> for B
  returns true, with the index one slot past the home slot, and \<open>hashmap_get\<close> returns
  B's value. The lookup does not stop at the unused home slot, and \<open>maxcol\<close> is still 1.
\<close>

theorem lookup_survives_removal_gap:
  assumes col: "home_slot mem 8 kb lb = home_slot mem 8 ka la"
    and ne: "\<not> same_key mem ka la kb lb"
  shows "put_all (hashmap_init hashmap_zero) mem kt [(va, ka, la), (vb, kb, lb)]
           = Some (Inr (collided_pair mem va ka la vb kb lb))
    \<and> hashmap_remove (collided_pair mem va ka la vb kb lb) mem ka la
           = Some (Inr (collided_pair_removed mem va ka la vb kb lb))
    \<and> hashmap_contains (collided_pair_removed mem va ka la vb kb lb) mem kb lb
           = Some (Inr (True, (collided_pair_removed mem va ka la vb kb lb)
                                \<lparr>index := int ((home_slot mem 8 ka la + 1) mod 8)\<rparr>))
    \<and> hashmap_get (collided_pair_removed mem va ka la vb kb lb) mem kb lb
           = Some (Inr (vb, (collided_pair_removed mem va ka la vb kb lb)
                                \<lparr>index := int ((home_slot mem 8 ka la + 1) mod 8)\<rparr>))"
  using removal_gap_steps [OF col ne] by (intro conjI)

theorem lookup_survives_removal_gap_witness:
  "home_slot dict_mem 8 0x1010 1 = home_slot dict_mem 8 0x1000 1
   \<and> \<not> same_key dict_mem 0x1000 1 0x1010 1
   \<and> hashmap_remove (collided_pair dict_mem (1::int) 0x1000 1 2 0x1010 1) dict_mem 0x1000 1
        = Some (Inr (collided_pair_removed dict_mem 1 0x1000 1 2 0x1010 1))
   \<and> hashmap_contains (collided_pair_removed dict_mem (1::int) 0x1000 1 2 0x1010 1) dict_mem 0x1010 1
        = Some (Inr (True, (collided_pair_removed dict_mem 1 0x1000 1 2 0x1010 1)\<lparr>index := 7\<rparr>))"
proof -
  have a: "home_slot dict_mem 8 0x1010 1 = home_slot dict_mem 8 0x1000 1"
    by (simp add: home_slot_def hashmap_hash_def key_bytes_def dict_mem_def)
  have b: "\<not> same_key dict_mem 0x1000 1 0x1010 1"
    by (simp add: same_key_def hashmap_match_item_def first_char_def dict_mem_def)
  have c: "home_slot dict_mem 8 0x1000 1 = 6"
    by (simp add: home_slot_def hashmap_hash_def key_bytes_def dict_mem_def)
  show ?thesis
    using a b lookup_survives_removal_gap [OF a b, where va = "1::int" and vb = "2::int"] by (simp add: c)
qed

section \<open>What the lookup computes\<close>

lemma pair_table_reached:
  "put_all (hashmap_init hashmap_zero) dict_mem Signed_char [(1, 0x1000, 1), (2, 0x1010, 1)] = Some (Inr pair_table)"
  by (simp add: hm_eval pair_table_def entry_def)

lemma gap_table_reached:
  "hashmap_remove pair_table dict_mem 0x1000 1 = Some (Inr gap_table)"
  by (simp add: hm_eval pair_table_def gap_table_def entry_def)








section \<open>Putting a key twice\<close>

text \<open>
  C1 (fails). The key is the two bytes \<open>0xC3 0xA9\<close>, passed through a pointer to signed
  \<open>char\<close> as the demo program passes its words. The first put places it in its home slot
  5. In the second put \<open>hashmap_match_item\<close> compares \<open>(kbuf)[0]\<close>, which is -61, with the
  stored \<open>uint8_t\<close> first byte, which is 195: the entry does not match, the probe moves on
  and the key is entered a second time, in slot 6, with the new value. \<open>hashmap_contains\<close>
  and \<open>hashmap_get\<close> cast the key to \<open>uint8_t *\<close> and stop at slot 5: \<open>hashmap_get\<close>
  returns 1, the value of the first put, and \<open>count\<close> is 2. Through a \<open>uint8_t *\<close> the
  same two puts overwrite the value, and \<open>hashmap_get\<close> returns 2.
\<close>

theorem put_again_through_signed_char_is_shadowed:
  "put_all (hashmap_init hashmap_zero) accent_mem Signed_char [(1, 0x2000, 2), (2, 0x2000, 2)]
     = Some (Inr accent_table)
   \<and> hashmap_contains accent_table accent_mem 0x2000 2
     = Some (Inr (True, accent_table\<lparr>index := 5\<rparr>))
   \<and> hashmap_get accent_table accent_mem 0x2000 2
     = Some (Inr (1, accent_table\<lparr>index := 5\<rparr>))
   \<and> then_res (put_all (hashmap_init hashmap_zero) accent_mem Unsigned_char
                  [(1 :: int, 0x2000, 2), (2, 0x2000, 2)])
        (\<lambda>hm. then_res (hashmap_get hm accent_mem 0x2000 2)
           (\<lambda>(v, hm'). Some (Inr (v, count hm', index hm'))))
     = Some (Inr (2, 1, 5))"
  by (simp add: hm_eval hashmap_contains_def hashmap_get_def hashmap_at_def accent_mem_def
      accent_table_def)

section \<open>Overwriting a key\<close>





section \<open>The shape of reachable tables\<close>

lemma used_count_update:
  "i < length xs \<Longrightarrow>
     used_count (xs[i := y]) + (if used (meta (xs ! i)) \<noteq> 0 then 1 else 0)
       = used_count xs + (if used (meta y) \<noteq> 0 then 1 else 0)"
  unfolding used_count_def
proof (induction xs arbitrary: i)
  case Nil
  then show ?case by simp
next
  case (Cons x xs)
  then show ?case by (cases i) auto
qed

lemma used_count_le: "used_count xs \<le> length xs"
  by (simp add: used_count_def)

lemma used_count_replicate_zero [simp]: "used_count (replicate n zero_item) = 0"
  by (simp add: used_count_def zero_item_def)

lemma push_bit_exp64: "push_bit 1 (2 ^ k :: 64 word) = 2 ^ Suc k"
  by (simp add: push_bit_eq_mult)













lemma five_table_reached:
  "put_all (hashmap_init hashmap_zero) dict_mem Signed_char (take 5 six_words) = Some (Inr five_table)"
  by (simp add: hm_eval five_table_def entry_def)



section \<open>The load factor after a put\<close>




section \<open>Probe chains\<close>

lemma match_iff: "hashmap_match_item mem Unsigned_char m kb kl = same_key mem (key m) (len m) kb kl"
  by (simp add: same_key_def hashmap_match_item_def)

lemma same_key_sym: "same_key mem k1 l1 k2 l2 \<Longrightarrow> same_key mem k2 l2 k1 l1"
  by (auto simp: same_key_def match_unsigned)

lemma same_key_trans:
  "same_key mem k1 l1 k2 l2 \<Longrightarrow> same_key mem k2 l2 k3 l3 \<Longrightarrow> same_key mem k1 l1 k3 l3"
  by (auto simp: same_key_def match_unsigned)

lemma same_key_hash: "same_key mem k1 l1 k2 l2 \<Longrightarrow> hashmap_hash mem k1 l1 = hashmap_hash mem k2 l2"
  by (auto simp: same_key_def match_unsigned hashmap_hash_def)

lemma same_key_home:
  "same_key mem k1 l1 k2 l2 \<Longrightarrow> home_slot mem cap k1 l1 = home_slot mem cap k2 l2"
  using same_key_hash [of mem k1 l1 k2 l2] by (simp add: home_slot_def)

lemma dist_back:
  assumes "h < n" "i < n"
  shows "(h + (i + n - h) mod n) mod n = (i::nat)"
proof (cases "h \<le> i")
  case True
  have e: "i + n - h = (i - h) + n" using True by linarith
  have "(i + n - h) mod n = (i - h) mod n" unfolding e by (rule mod_add_self2)
  also have "\<dots> = i - h" using assms by (intro mod_less) linarith
  finally have "h + (i + n - h) mod n = i" using True by linarith
  then show ?thesis using assms(2) by (simp only: mod_less)
next
  case False
  have "i + n - h < n" using False assms by linarith
  then have m: "(i + n - h) mod n = i + n - h" by (rule mod_less)
  have "h + (i + n - h) = i + n" using False assms by linarith
  then have "(h + (i + n - h) mod n) mod n = (i + n) mod n" unfolding m by (rule arg_cong)
  also have "\<dots> = i mod n" by (rule mod_add_self2)
  also have "\<dots> = i" using assms(2) by (rule mod_less)
  finally show ?thesis .
qed

lemma dist_fwd:
  assumes "h < n" "d < n"
  shows "((h + d) mod n + n - h) mod n = (d::nat)"
proof (cases "h + d < n")
  case True
  then have m: "(h + d) mod n = h + d" by (rule mod_less)
  have "h + d + n - h = d + n" by linarith
  then have "((h + d) mod n + n - h) mod n = (d + n) mod n" unfolding m by (rule arg_cong)
  also have "\<dots> = d mod n" by (rule mod_add_self2)
  also have "\<dots> = d" using assms(2) by (rule mod_less)
  finally show ?thesis .
next
  case False
  have "(h + d) mod n = (h + d - n) mod n"
    using False by (simp add: le_mod_geq)
  also have "\<dots> = h + d - n" using assms by (intro mod_less) linarith
  finally have m: "(h + d) mod n = h + d - n" .
  have "h + d - n + n - h = d" using False by linarith
  then have "((h + d) mod n + n - h) mod n = d mod n" unfolding m by (rule arg_cong)
  also have "\<dots> = d" using assms(2) by (rule mod_less)
  finally show ?thesis .
qed

lemma probe_inj:
  assumes "h < n" "d < n" "j < n" "(h + j) mod n = (h + d) mod (n::nat)"
  shows "j = d"
  using dist_fwd [OF assms(1,2)] dist_fwd [OF assms(1,3)] assms(4) by simp

lemma find_first:
  "d < length ys \<Longrightarrow> P (ys ! d) \<Longrightarrow> (\<forall>j<d. \<not> P (ys ! j)) \<Longrightarrow> find P ys = Some (ys ! d)"
proof (induction ys arbitrary: d)
  case Nil
  then show ?case by simp
next
  case (Cons y ys)
  show ?case
  proof (cases d)
    case 0
    then show ?thesis using Cons.prems by simp
  next
    case (Suc d')
    have "\<not> P y" using Cons.prems(3) Suc by auto
    moreover have "find P ys = Some (ys ! d')"
    proof (rule Cons.IH)
      show "d' < length ys" using Cons.prems(1) Suc by simp
      show "P (ys ! d')" using Cons.prems(2) Suc by simp
      show "\<forall>j<d'. \<not> P (ys ! j)"
      proof (intro allI impI)
        fix j assume "j < d'"
        then have "Suc j < d" using Suc by simp
        from Cons.prems(3) [rule_format, OF this] show "\<not> P (ys ! j)" by simp
      qed
    qed
    ultimately show ?thesis using Suc by simp
  qed
qed

lemma probe_slots_nth: "j < n \<Longrightarrow> probe_slots cap h n ! j = (h + j) mod cap"
  by (simp add: probe_slots_def)

lemma probe_slots_length [simp]: "length (probe_slots cap h n) = n"
  by (simp add: probe_slots_def)

lemma lookup_finds:
  assumes inv: "probe_inv mem hm k xs" and i: "i < 2 ^ k"
    and u: "used (meta (xs ! i)) \<noteq> 0"
    and s: "same_key mem (key (meta (xs ! i))) (len (meta (xs ! i))) kb kl"
  shows "hashmap_lookup (Some xs) (capacity hm) (maxcol hm) mem kb kl = Some (Inr (int i))"
proof -
  from inv have ok: "table_ok hm k xs" and k31: "k \<le> 31" and mcl: "unat (maxcol hm) < 2 ^ k"
    and ch: "chain_ok mem xs k (maxcol hm) i"
    using i u by (simp_all add: probe_inv_def)
  from ok have k: "k < 64" and len: "length xs = 2 ^ k" and cap: "capacity hm = 2 ^ k"
    by (simp_all add: table_ok_def)
  define n :: nat where "n = 2 ^ k"
  define ki where "ki = key (meta (xs ! i))"
  define li where "li = len (meta (xs ! i))"
  define h where "h = home_slot mem (2 ^ k) ki li"
  define d where "d = (i + n - h) mod n"
  have n0: "0 < n" by (simp add: n_def)
  have hn: "h < n" unfolding h_def n_def using k by (rule home_slot_less)
  have dn: "d < n" unfolding d_def using n0 by simp
  have bk: "(h + d) mod n = i" unfolding d_def using hn i by (intro dist_back) (simp_all add: n_def)
  have hb: "home_slot mem (2 ^ k) kb kl = h"
    unfolding h_def using s by (simp add: ki_def li_def same_key_home)
  from ch have dmc: "d \<le> unat (maxcol hm)"
    and before: "\<And>j. j < d \<Longrightarrow> used (meta (xs ! ((h + j) mod n))) \<noteq> 0
             \<and> \<not> hashmap_match_item mem Unsigned_char (meta (xs ! ((h + j) mod n))) ki li"
    by (simp_all add: chain_ok_def Let_def ki_def li_def h_def d_def n_def)
  have mc: "maxcol hm \<noteq> - 1"
  proof
    assume "maxcol hm = - 1"
    then have "unat (maxcol hm) = 2 ^ 32 - 1"
      by (simp add: unsigned_minus_1_eq_mask mask_eq_exp_minus_1)
    moreover have "(2::nat) ^ k \<le> 2 ^ 31" using k31 by (intro power_increasing) simp_all
    ultimately show False using mcl by simp
  qed
  have k63: "k \<le> 63" using k by simp
  have sp: "hashmap_lookup (Some xs) (capacity hm) (maxcol hm) mem kb kl =
      Some (Inr (lookup_spec xs (capacity hm) (maxcol hm) mem kb kl))"
    by (rule hashmap_lookup_spec [OF k63 len cap mc])
  define ys where "ys = probe_slots n h (unat (maxcol hm) + 1)"
  have hit: "slot_hit mem kb kl (xs ! i)"
    using u s by (simp add: slot_hit_iff match_iff)
  have miss: "\<not> slot_hit mem kb kl (xs ! ((h + j) mod n))" if "j < d" for j
  proof
    assume "slot_hit mem kb kl (xs ! ((h + j) mod n))"
    then have "same_key mem (key (meta (xs ! ((h + j) mod n)))) (len (meta (xs ! ((h + j) mod n)))) kb kl"
      by (simp add: slot_hit_iff match_iff)
    then have "same_key mem (key (meta (xs ! ((h + j) mod n)))) (len (meta (xs ! ((h + j) mod n)))) ki li"
      using s same_key_sym same_key_trans unfolding ki_def li_def by blast
    then show False using before [OF that] by (simp add: match_iff)
  qed
  have "find (\<lambda>j. slot_hit mem kb kl (xs ! j)) ys = Some (ys ! d)"
  proof (rule find_first)
    show "d < length ys" using dmc by (simp add: ys_def)
    show "slot_hit mem kb kl (xs ! (ys ! d))"
      using dmc hit bk by (simp add: ys_def probe_slots_nth)
    show "\<forall>j<d. \<not> slot_hit mem kb kl (xs ! (ys ! j))"
      using dmc miss by (simp add: ys_def probe_slots_nth)
  qed
  moreover have "ys ! d = i" using dmc bk by (simp add: ys_def probe_slots_nth)
  ultimately have "lookup_spec xs (capacity hm) (maxcol hm) mem kb kl = int i"
    using hb by (simp add: lookup_spec_def cap unat_exp64 [OF k] home_slot_def ys_def n_def)
  then show ?thesis using sp by simp
qed

lemma used_unique:
  assumes inv: "probe_inv mem hm k xs" and i: "i < 2 ^ k" "used (meta (xs ! i)) \<noteq> 0"
    and j: "j < 2 ^ k" "used (meta (xs ! j)) \<noteq> 0"
    and s: "same_key mem (key (meta (xs ! i))) (len (meta (xs ! i))) (key (meta (xs ! j))) (len (meta (xs ! j)))"
  shows "i = j"
  using lookup_finds [OF inv i s] lookup_finds [OF inv j same_key_refl] by simp

section \<open>Inserting a new key\<close>

lemma unused_slot_exists:
  assumes "used_count xs < length xs"
  shows "\<exists>i<length xs. used (meta (xs ! i)) = 0"
proof (rule ccontr)
  assume "\<not> ?thesis"
  then have "\<forall>e\<in>set xs. used (meta e) \<noteq> 0" by (auto simp: in_set_conv_nth)
  then have "filter (\<lambda>e. used (meta e) \<noteq> 0) xs = xs" by (intro filter_True) simp
  then show False using assms by (simp add: used_count_def)
qed

lemma unat_of_nat32: "d < 2 ^ 32 \<Longrightarrow> unat (of_nat d :: 32 word) = d"
  by (simp add: unat_of_nat take_bit_nat_eq_self)

lemma exp_le_31: "k \<le> 31 \<Longrightarrow> (2::nat) ^ k \<le> 2147483648"
proof -
  assume "k \<le> 31"
  then have "(2::nat) ^ k \<le> 2 ^ 31" by (intro power_increasing) simp_all
  then show ?thesis by simp
qed

lemma put_nogrow_fresh:
  assumes inv: "probe_inv mem hm k xs"
    and room: "unat (count hm) < 2 ^ k"
    and fresh: "\<forall>i<2 ^ k. used (meta (xs ! i)) \<noteq> 0 \<longrightarrow>
                  \<not> same_key mem (key (meta (xs ! i))) (len (meta (xs ! i))) kb kl"
  shows "\<exists>pos hm'. pos < 2 ^ k \<and> used (meta (xs ! pos)) = 0
           \<and> hashmap_put_nogrow hm mem kt v kb kl = Some (Inr hm')
           \<and> capacity hm' = capacity hm \<and> unat (count hm') = unat (count hm) + 1
           \<and> index hm' = index hm
           \<and> probe_inv mem hm' k (xs[pos := entry kb kl v])"
proof -
  from inv have ok: "table_ok hm k xs" and k31: "k \<le> 31" and mcl: "unat (maxcol hm) < 2 ^ k"
    and ch: "\<And>i. i < 2 ^ k \<Longrightarrow> used (meta (xs ! i)) \<noteq> 0 \<Longrightarrow> chain_ok mem xs k (maxcol hm) i"
    by (simp_all add: probe_inv_def)
  from ok have k: "k < 64" and its: "items hm = Some xs" and len: "length xs = 2 ^ k"
    and cap: "capacity hm = 2 ^ k" and cnt: "unat (count hm) = used_count xs"
    by (simp_all add: table_ok_def)
  define n :: nat where "n = 2 ^ k"
  define h where "h = home_slot mem (2 ^ k) kb kl"
  have n0: "0 < n" by (simp add: n_def)
  have nle: "n \<le> 2147483648" unfolding n_def using k31 by (rule exp_le_31)
  have hn: "h < n" unfolding h_def n_def using k by (rule home_slot_less)
  have "used_count xs < length xs" using room cnt len by simp
  then obtain i0 where i0: "i0 < n" "used (meta (xs ! i0)) = 0"
    using unused_slot_exists [of xs] len n_def by auto
  define P where "P d \<longleftrightarrow> used (meta (xs ! ((h + d) mod n))) = 0" for d
  have P0: "P ((i0 + n - h) mod n)"
    unfolding P_def using dist_back [OF hn i0(1)] i0(2) by simp
  define d where "d = (LEAST d. P d)"
  have Pd: "P d" unfolding d_def using P0 by (rule LeastI)
  have "d \<le> (i0 + n - h) mod n" unfolding d_def using P0 by (rule Least_le)
  moreover have "(i0 + n - h) mod n < n" using n0 by simp
  ultimately have dn: "d < n" by simp
  have before: "\<not> P j" if "j < d" for j
    using that not_less_Least [of j P] by (simp add: d_def)
  define pos where "pos = (h + d) mod n"
  have posn: "pos < n" unfolding pos_def using n0 by simp
  have free: "used (meta (xs ! pos)) = 0" using Pd by (simp add: P_def pos_def)
  have nomatch: "\<not> hashmap_match_item mem Unsigned_char (meta (xs ! s)) kb kl"
    if "s < n" "used (meta (xs ! s)) \<noteq> 0" for s
    using fresh that by (simp add: match_iff n_def)
  have chain: "\<forall>j<d. used (meta (xs ! ((h + j) mod 2 ^ k))) \<noteq> 0
             \<and> \<not> hashmap_match_item mem kt (meta (xs ! ((h + j) mod 2 ^ k))) kb kl"
  proof (intro allI impI)
    fix j assume jd: "j < d"
    have u: "used (meta (xs ! ((h + j) mod n))) \<noteq> 0" using before [OF jd] by (simp add: P_def)
    have "(h + j) mod n < n" using n0 by simp
    from nomatch [OF this u] have "\<not> hashmap_match_item mem kt (meta (xs ! ((h + j) mod n))) kb kl"
      using match_imp_unsigned by blast
    then show "used (meta (xs ! ((h + j) mod 2 ^ k))) \<noteq> 0
             \<and> \<not> hashmap_match_item mem kt (meta (xs ! ((h + j) mod 2 ^ k))) kb kl"
      using u by (simp add: n_def)
  qed
  have roomw: "count hm < capacity hm"
    using room by (simp add: cap word_less_nat_alt unat_exp64 [OF k])
  have h_eq: "h = unat (hashmap_hash mem kb kl AND (capacity hm - 1))"
    by (simp add: h_def home_slot_def cap)
  have free': "used (meta (xs ! ((h + d) mod 2 ^ k))) = 0"
    using free by (simp add: pos_def n_def)
  define mc' where "mc' = (if maxcol hm < of_nat d then of_nat d else maxcol hm)"
  define xs' where "xs' = xs[pos := entry kb kl v]"
  define hm' where "hm' = hm\<lparr>items := Some xs', count := count hm + 1, maxcol := mc'\<rparr>"
  have res: "hashmap_put_nogrow hm mem kt v kb kl = Some (Inr hm')"
    using put_nogrow_insert [OF k its len cap roomw h_eq chain free', of v]
    by (simp add: hm'_def xs'_def pos_def n_def entry_def mc'_def)
  have d32: "unat (of_nat d :: 32 word) = d"
    using dn nle by (intro unat_of_nat32) simp
  have mc1: "unat (maxcol hm) \<le> unat mc'" and mc2: "d \<le> unat mc'" and mc3: "unat mc' < 2 ^ k"
    using d32 dn mcl by (auto simp: mc'_def word_less_nat_alt n_def)
  have "unat (count hm) + unat (1 :: 64 word) < 2 ^ 64"
    using room nle by (simp add: n_def)
  then have c1: "unat (count hm + 1) = unat (count hm) + 1"
    using unat_add_lem [of "count hm" 1] by simp
  have posl: "pos < length xs" using posn by (simp add: len n_def)
  have uc: "used_count xs' = used_count xs + 1"
    using used_count_update [OF posl, of "entry kb kl v"] free by (simp add: xs'_def)
  have ok': "table_ok hm' k xs'"
    using k cap len cnt c1 uc by (simp add: table_ok_def hm'_def xs'_def)
  have same: "xs' ! s = xs ! s" if "s \<noteq> pos" for s
    using that by (simp add: xs'_def)
  have ch': "chain_ok mem xs' k mc' i" if il: "i < 2 ^ k" and iu: "used (meta (xs' ! i)) \<noteq> 0" for i
  proof (cases "i = pos")
    case True
    have at: "xs' ! pos = entry kb kl v" using posl by (simp add: xs'_def)
    have dist: "(pos + n - h) mod n = d" unfolding pos_def using hn dn by (rule dist_fwd)
    have "used (meta (xs' ! ((h + j) mod n))) \<noteq> 0
          \<and> \<not> hashmap_match_item mem Unsigned_char (meta (xs' ! ((h + j) mod n))) kb kl"
      if jd: "j < d" for j
    proof -
      have jn: "j < n" using jd dn by simp
      have ne: "(h + j) mod n \<noteq> pos"
        using probe_inj [OF hn dn jn] jd by (auto simp: pos_def)
      have u: "used (meta (xs ! ((h + j) mod n))) \<noteq> 0" using before [OF jd] by (simp add: P_def)
      have "(h + j) mod n < n" using n0 by simp
      from nomatch [OF this u] u show ?thesis by (simp add: same [OF ne])
    qed
    then show ?thesis
      using mc2 dist
      by (simp add: chain_ok_def Let_def True at entry_def h_def [symmetric] n_def [symmetric])
  next
    case False
    have e: "xs' ! i = xs ! i" using False by (rule same)
    have u: "used (meta (xs ! i)) \<noteq> 0" using iu by (simp add: e)
    define hi where "hi = home_slot mem (2 ^ k) (key (meta (xs ! i))) (len (meta (xs ! i)))"
    define di where "di = (i + n - hi) mod n"
    from ch [OF il u] have a: "di \<le> unat (maxcol hm)"
      and b: "\<And>j. j < di \<Longrightarrow> used (meta (xs ! ((hi + j) mod n))) \<noteq> 0
             \<and> \<not> hashmap_match_item mem Unsigned_char (meta (xs ! ((hi + j) mod n)))
                   (key (meta (xs ! i))) (len (meta (xs ! i)))"
      by (simp_all add: chain_ok_def Let_def hi_def di_def n_def)
    have "used (meta (xs' ! ((hi + j) mod n))) \<noteq> 0
             \<and> \<not> hashmap_match_item mem Unsigned_char (meta (xs' ! ((hi + j) mod n)))
                   (key (meta (xs ! i))) (len (meta (xs ! i)))" if "j < di" for j
    proof -
      have "(hi + j) mod n \<noteq> pos" using b [OF that] free by auto
      then show ?thesis using b [OF that] by (simp add: same)
    qed
    then show ?thesis
      using a mc1
      by (simp add: chain_ok_def Let_def e hi_def [symmetric] n_def [symmetric] di_def [symmetric])
  qed
  have "probe_inv mem hm' k xs'"
    unfolding probe_inv_def using ok' k31 mc3 ch' by (simp add: hm'_def)
  moreover have "capacity hm' = capacity hm" "unat (count hm') = unat (count hm) + 1" "index hm' = index hm"
    by (simp_all add: hm'_def c1)
  ultimately show ?thesis using posn free res unfolding xs'_def n_def by blast
qed

lemma entries_iff:
  "p \<in> entries xs \<longleftrightarrow> (\<exists>i<length xs. used (meta (xs ! i)) \<noteq> 0 \<and> triple (xs ! i) = p)"
  by (auto simp: entries_def in_set_conv_nth image_iff)

lemma entries_insert:
  assumes pl: "pos < length xs" and free: "used (meta (xs ! pos)) = 0"
  shows "entries (xs[pos := entry kb kl v]) = insert (v, kb, kl) (entries xs)"
proof (rule set_eqI)
  fix p
  show "p \<in> entries (xs[pos := entry kb kl v]) \<longleftrightarrow> p \<in> insert (v, kb, kl) (entries xs)"
  proof
    assume "p \<in> entries (xs[pos := entry kb kl v])"
    then obtain i where i: "i < length xs" "used (meta ((xs[pos := entry kb kl v]) ! i)) \<noteq> 0"
      "triple ((xs[pos := entry kb kl v]) ! i) = p"
      by (auto simp: entries_iff)
    show "p \<in> insert (v, kb, kl) (entries xs)"
    proof (cases "i = pos")
      case True
      then show ?thesis using i pl by (simp add: triple_def entry_def)
    next
      case False
      then have "used (meta (xs ! i)) \<noteq> 0" "triple (xs ! i) = p" using i by simp_all
      then have "p \<in> entries xs" using i(1) by (auto simp: entries_iff)
      then show ?thesis by simp
    qed
  next
    assume "p \<in> insert (v, kb, kl) (entries xs)"
    then consider "p = (v, kb, kl)" | "p \<in> entries xs" by auto
    then show "p \<in> entries (xs[pos := entry kb kl v])"
    proof cases
      case 1
      have "used (meta ((xs[pos := entry kb kl v]) ! pos)) \<noteq> 0"
        "triple ((xs[pos := entry kb kl v]) ! pos) = p"
        using pl 1 by (simp_all add: triple_def entry_def)
      then show ?thesis using pl by (auto simp: entries_iff)
    next
      case 2
      then obtain i where i: "i < length xs" "used (meta (xs ! i)) \<noteq> 0" "triple (xs ! i) = p"
        by (auto simp: entries_iff)
      then have "i \<noteq> pos" using free by auto
      then have "used (meta ((xs[pos := entry kb kl v]) ! i)) \<noteq> 0"
        "triple ((xs[pos := entry kb kl v]) ! i) = p"
        using i by simp_all
      then show ?thesis using i(1) by (auto simp: entries_iff)
    qed
  qed
qed

lemma entries_replicate_zero [simp]: "entries (replicate n zero_item) = {}"
  by (auto simp: entries_def zero_item_def)

lemma put_nogrow_new_key:
  assumes inv: "probe_inv mem hm k xs"
    and room: "unat (count hm) < 2 ^ k"
    and fresh: "\<forall>p\<in>entries xs. \<not> same_key mem (fst (snd p)) (snd (snd p)) kb kl"
  shows "\<exists>hm' xs'. hashmap_put_nogrow hm mem kt v kb kl = Some (Inr hm')
           \<and> probe_inv mem hm' k xs' \<and> entries xs' = insert (v, kb, kl) (entries xs)
           \<and> unat (count hm') = unat (count hm) + 1 \<and> index hm' = index hm"
proof -
  from inv have len: "length xs = 2 ^ k" by (simp add: probe_inv_def table_ok_def)
  have f: "\<forall>i<2 ^ k. used (meta (xs ! i)) \<noteq> 0 \<longrightarrow>
                  \<not> same_key mem (key (meta (xs ! i))) (len (meta (xs ! i))) kb kl"
  proof (intro allI impI)
    fix i assume "i < 2 ^ k" "used (meta (xs ! i)) \<noteq> 0"
    then have "triple (xs ! i) \<in> entries xs" using len by (auto simp: entries_iff)
    from fresh [rule_format, OF this]
    show "\<not> same_key mem (key (meta (xs ! i))) (len (meta (xs ! i))) kb kl"
      by (simp add: triple_def)
  qed
  from put_nogrow_fresh [OF inv room f, of kt v] obtain pos hm' where
    p: "pos < 2 ^ k" "used (meta (xs ! pos)) = 0"
       "hashmap_put_nogrow hm mem kt v kb kl = Some (Inr hm')"
       "unat (count hm') = unat (count hm) + 1" "index hm' = index hm"
       "probe_inv mem hm' k (xs[pos := entry kb kl v])"
    by blast
  have "entries (xs[pos := entry kb kl v]) = insert (v, kb, kl) (entries xs)"
    using p(1,2) len by (intro entries_insert) simp_all
  then show ?thesis using p by blast
qed

lemma ent_all: "ent xs {..<length xs} = entries xs"
proof (rule set_eqI)
  fix p
  have "p \<in> ent xs {..<length xs} \<longleftrightarrow> (\<exists>j<length xs. used (meta (xs ! j)) \<noteq> 0 \<and> triple (xs ! j) = p)"
    unfolding ent_def by auto
  then show "p \<in> ent xs {..<length xs} \<longleftrightarrow> p \<in> entries xs" by (simp add: entries_iff)
qed

lemma ent_empty [simp]: "ent xs {} = {}"
  by (simp add: ent_def)

lemma ent_insert:
  "ent xs (insert j J) = (if used (meta (xs ! j)) \<noteq> 0 then insert (triple (xs ! j)) (ent xs J) else ent xs J)"
  by (auto simp: ent_def)

lemma rebuild_keeps_inv:
  assumes old: "probe_inv mem ohm ko xs"
  shows "distinct js \<Longrightarrow> \<forall>j\<in>set js. j < 2 ^ ko \<Longrightarrow> D \<inter> set js = {} \<Longrightarrow> \<forall>j\<in>D. j < 2 ^ ko \<Longrightarrow>
     probe_inv mem tmp k ys \<Longrightarrow> entries ys = ent xs D \<Longrightarrow> unat (count tmp) + length js < 2 ^ k \<Longrightarrow>
     \<exists>tmp' ys'. rebuild_loop (Some xs) mem js tmp = Some (Inr tmp')
        \<and> probe_inv mem tmp' k ys' \<and> entries ys' = ent xs (D \<union> set js)
        \<and> unat (count tmp') = unat (count tmp) + length (filter (\<lambda>j. used (meta (xs ! j)) \<noteq> 0) js)
        \<and> index tmp' = index tmp"
proof (induction js arbitrary: tmp ys D)
  case Nil
  then show ?case by auto
next
  case (Cons j js)
  from old have len: "length xs = 2 ^ ko" by (simp add: probe_inv_def table_ok_def)
  have jl: "j < 2 ^ ko" using Cons.prems(2) by simp
  have jD: "j \<notin> D" using Cons.prems(3) by auto
  have d': "distinct js" and b': "\<forall>j\<in>set js. j < 2 ^ ko" and i': "insert j D \<inter> set js = {}"
    and D': "\<forall>j\<in>insert j D. j < 2 ^ ko"
    using Cons.prems(1-4) by auto
  show ?case
  proof (cases "used (meta (xs ! j)) \<noteq> 0")
    case False
    have e: "entries ys = ent xs (insert j D)" using Cons.prems(6) False by (simp add: ent_insert)
    have r: "unat (count tmp) + length js < 2 ^ k" using Cons.prems(7) by simp
    from Cons.IH [OF d' b' i' D' Cons.prems(5) e r] obtain tmp' ys' where
      t: "rebuild_loop (Some xs) mem js tmp = Some (Inr tmp')"
         "probe_inv mem tmp' k ys'" "entries ys' = ent xs (insert j D \<union> set js)"
         "unat (count tmp') = unat (count tmp) + length (filter (\<lambda>j. used (meta (xs ! j)) \<noteq> 0) js)"
         "index tmp' = index tmp"
      by blast
    have "rebuild_loop (Some xs) mem (j # js) tmp = Some (Inr tmp')"
      using t(1) False jl len by simp
    moreover have "entries ys' = ent xs (D \<union> set (j # js))" using t(3) by simp
    moreover have "unat (count tmp') = unat (count tmp)
        + length (filter (\<lambda>j. used (meta (xs ! j)) \<noteq> 0) (j # js))"
      using t(4) False by simp
    ultimately show ?thesis using t(2,5) by blast
  next
    case True
    define kb where "kb = key (meta (xs ! j))"
    define kl where "kl = len (meta (xs ! j))"
    define v where "v = data (xs ! j)"
    have fresh: "\<forall>p\<in>entries ys. \<not> same_key mem (fst (snd p)) (snd (snd p)) kb kl"
    proof
      fix p assume "p \<in> entries ys"
      then obtain j' where j': "j' \<in> D" "used (meta (xs ! j')) \<noteq> 0" "p = triple (xs ! j')"
        unfolding Cons.prems(6) ent_def by blast
      have j'l: "j' < 2 ^ ko" using Cons.prems(4) j'(1) by simp
      show "\<not> same_key mem (fst (snd p)) (snd (snd p)) kb kl"
      proof
        assume "same_key mem (fst (snd p)) (snd (snd p)) kb kl"
        then have "same_key mem (key (meta (xs ! j'))) (len (meta (xs ! j')))
                     (key (meta (xs ! j))) (len (meta (xs ! j)))"
          by (simp add: j'(3) triple_def kb_def kl_def)
        from used_unique [OF old j'l j'(2) jl True this] show False using j'(1) jD by simp
      qed
    qed
    have room: "unat (count tmp) < 2 ^ k" using Cons.prems(7) by simp
    from put_nogrow_new_key [OF Cons.prems(5) room fresh, of Unsigned_char v] obtain t zs where
      t: "hashmap_put_nogrow tmp mem Unsigned_char v kb kl = Some (Inr t)"
         "probe_inv mem t k zs" "entries zs = insert (v, kb, kl) (entries ys)"
         "unat (count t) = unat (count tmp) + 1" "index t = index tmp"
      by blast
    have e: "entries zs = ent xs (insert j D)"
      using t(3) True by (simp add: ent_insert Cons.prems(6) triple_def v_def kb_def kl_def)
    have r: "unat (count t) + length js < 2 ^ k" using Cons.prems(7) t(4) by simp
    from Cons.IH [OF d' b' i' D' t(2) e r] obtain tmp' ys' where
      u: "rebuild_loop (Some xs) mem js t = Some (Inr tmp')"
         "probe_inv mem tmp' k ys'" "entries ys' = ent xs (insert j D \<union> set js)"
         "unat (count tmp') = unat (count t) + length (filter (\<lambda>j. used (meta (xs ! j)) \<noteq> 0) js)"
         "index tmp' = index t"
      by blast
    have "rebuild_loop (Some xs) mem (j # js) tmp = Some (Inr tmp')"
      using u(1) t(1) True jl len by (simp add: then_res_def v_def kb_def kl_def)
    moreover have "entries ys' = ent xs (D \<union> set (j # js))" using u(3) by simp
    moreover have "unat (count tmp') = unat (count tmp)
        + length (filter (\<lambda>j. used (meta (xs ! j)) \<noteq> 0) (j # js))"
      using u(4) t(4) True by simp
    moreover have "index tmp' = index tmp" using u(5) t(5) by simp
    ultimately show ?thesis using u(2) by blast
  qed
qed

lemma used_count_indices:
  "length (filter (\<lambda>j. used (meta (xs ! j)) \<noteq> 0) [0..<length xs]) = used_count xs"
proof -
  have "filter (\<lambda>e. used (meta e) \<noteq> 0) (map ((!) xs) [0..<length xs])
        = map ((!) xs) (filter ((\<lambda>e. used (meta e) \<noteq> 0) \<circ> (!) xs) [0..<length xs])"
    by (rule filter_map)
  then have "length (filter (\<lambda>e. used (meta e) \<noteq> 0) xs)
        = length (filter ((\<lambda>e. used (meta e) \<noteq> 0) \<circ> (!) xs) [0..<length xs])"
    by (simp add: map_nth)
  then show ?thesis by (simp add: used_count_def comp_def)
qed

section \<open>Growing and putting under the probe invariant\<close>

lemma probe_inv_empty:
  assumes k: "k \<le> 31"
  shows "probe_inv mem (hashmap_init_cap hm (2 ^ k)) k (replicate (2 ^ k) zero_item)"
proof -
  have k64: "k < 64" using k by simp
  have "table_ok (hashmap_init_cap hm (2 ^ k)) k (replicate (2 ^ k) zero_item)"
    using k64 by (simp add: table_ok_def hashmap_init_cap_def unat_exp64 [OF k64])
  moreover have "used (meta (zero_item :: 'a item)) = 0" by (simp add: zero_item_def)
  moreover have "maxcol (hashmap_init_cap hm (2 ^ k)) = 0" by (simp add: hashmap_init_cap_def)
  ultimately show ?thesis unfolding probe_inv_def using k by simp
qed

lemma grow_keeps_inv:
  assumes inv: "probe_inv mem hm k xs" and k30: "k \<le> 30"
  shows "\<exists>g ys. hashmap_grow hm mem = Some (Inr g) \<and> probe_inv mem g (Suc k) ys
           \<and> entries ys = entries xs \<and> unat (count g) = unat (count hm)
           \<and> capacity g = 2 ^ Suc k \<and> index g = index hm"
proof -
  from inv have ok: "table_ok hm k xs" by (simp add: probe_inv_def)
  from ok have k: "k < 64" and its: "items hm = Some xs" and len: "length xs = 2 ^ k"
    and cap: "capacity hm = 2 ^ k" and cnt: "unat (count hm) = used_count xs"
    by (simp_all add: table_ok_def)
  define tmp0 :: "'a hashmap" where "tmp0 = hashmap_init_cap hashmap_zero (2 ^ Suc k)"
  have k1: "Suc k \<le> 31" using k30 by simp
  have i0: "probe_inv mem tmp0 (Suc k) (replicate (2 ^ Suc k) zero_item)"
    unfolding tmp0_def using k1 by (rule probe_inv_empty)
  have c0: "count tmp0 = 0" "capacity tmp0 = 2 ^ Suc k" "index tmp0 = 0"
    by (simp_all add: tmp0_def hashmap_init_cap_def hashmap_zero_def)
  have e0: "entries (replicate (2 ^ Suc k) zero_item :: 'a item list) = ent xs {}" by simp
  have r0: "unat (count tmp0) + length [0..<2 ^ k] < 2 ^ Suc k" by (simp add: c0)
  have "\<exists>tmp' ys'. rebuild_loop (Some xs) mem [0..<2 ^ k] tmp0 = Some (Inr tmp')
        \<and> probe_inv mem tmp' (Suc k) ys' \<and> entries ys' = ent xs ({} \<union> set [0..<2 ^ k])
        \<and> unat (count tmp') = unat (count tmp0)
             + length (filter (\<lambda>j. used (meta (xs ! j)) \<noteq> 0) [0..<2 ^ k])
        \<and> index tmp' = index tmp0"
    by (rule rebuild_keeps_inv [OF inv _ _ _ _ i0 e0 r0]) simp_all
  then obtain tmp' ys' where
    t: "rebuild_loop (Some xs) mem [0..<2 ^ k] tmp0 = Some (Inr tmp')"
       "probe_inv mem tmp' (Suc k) ys'" "entries ys' = ent xs ({} \<union> set [0..<2 ^ k])"
       "unat (count tmp') = unat (count tmp0)
             + length (filter (\<lambda>j. used (meta (xs ! j)) \<noteq> 0) [0..<2 ^ k])"
    by blast
  define g where "g = hm\<lparr>items := items tmp', count := count tmp', maxcol := maxcol tmp',
                          capacity := capacity tmp'\<rparr>"
  have pb: "hashmap_init_cap hashmap_zero (push_bit 1 (capacity hm)) = tmp0"
    by (simp only: cap push_bit_exp64 tmp0_def)
  have ul: "[0..<unat (capacity hm)] = [0..<2 ^ k]" by (simp add: cap unat_exp64 [OF k])
  have gr: "hashmap_grow hm mem = Some (Inr g)"
    unfolding hashmap_grow_def its ul pb t(1) by (simp add: then_res_def g_def)
  have pg: "probe_inv mem g (Suc k) ys'"
    using t(2) by (simp add: probe_inv_def table_ok_def g_def)
  have "set [0..<2 ^ k] = {..<length xs}" by (auto simp: len)
  then have eg: "entries ys' = entries xs" using t(3) by (simp add: ent_all)
  have "length (filter (\<lambda>j. used (meta (xs ! j)) \<noteq> 0) [0..<2 ^ k]) = used_count xs"
    using used_count_indices [of xs] by (simp add: len)
  then have cg: "unat (count g) = unat (count hm)"
    using t(4) by (simp add: g_def c0 cnt)
  have "capacity g = 2 ^ Suc k"
    using t(2) by (simp add: g_def probe_inv_def table_ok_def)
  moreover have "index g = index hm" by (simp add: g_def)
  ultimately show ?thesis using gr pg eg cg by blast
qed

lemma put_new_key:
  assumes inv: "probe_inv mem hm k xs" and k30: "k \<le> 30"
    and room: "\<not> load_factor_ge_07 (count hm) (capacity hm) \<Longrightarrow> unat (count hm) < 2 ^ k"
    and fresh: "\<forall>p\<in>entries xs. \<not> same_key mem (fst (snd p)) (snd (snd p)) kb kl"
  shows "\<exists>hm' xs'. hashmap_put hm mem kt v kb kl = Some (Inr hm')
           \<and> probe_inv mem hm' (if load_factor_ge_07 (count hm) (capacity hm) then Suc k else k) xs'
           \<and> entries xs' = insert (v, kb, kl) (entries xs)
           \<and> unat (count hm') = unat (count hm) + 1 \<and> index hm' = index hm"
proof (cases "load_factor_ge_07 (count hm) (capacity hm)")
  case False
  from put_nogrow_new_key [OF inv room [OF False] fresh, of kt v] show ?thesis
    using False by (simp add: hashmap_put_def)
next
  case True
  from grow_keeps_inv [OF inv k30] obtain g ys where
    g: "hashmap_grow hm mem = Some (Inr g)" "probe_inv mem g (Suc k) ys"
       "entries ys = entries xs" "unat (count g) = unat (count hm)" "index g = index hm"
    by blast
  from inv have "unat (count hm) = used_count xs" "length xs = 2 ^ k"
    by (simp_all add: probe_inv_def table_ok_def)
  then have le: "unat (count hm) \<le> 2 ^ k" using used_count_le [of xs] by simp
  have "(2::nat) ^ k < 2 ^ Suc k" by simp
  then have rg: "unat (count g) < 2 ^ Suc k" using g(4) le by linarith
  have fg: "\<forall>p\<in>entries ys. \<not> same_key mem (fst (snd p)) (snd (snd p)) kb kl"
    using fresh g(3) by simp
  from put_nogrow_new_key [OF g(2) rg fg, of kt v] show ?thesis
    using True g by (simp add: hashmap_put_def then_res_def)
qed

lemma then_res_assoc: "then_res (then_res m f) g = then_res m (\<lambda>x. then_res (f x) g)"
  by (simp add: then_res_def split: option.splits sum.splits)

lemma put_all_snoc:
  "put_all hm mem kt (ps @ [p]) =
     then_res (put_all hm mem kt ps) (\<lambda>h. hashmap_put h mem kt (fst p) (fst (snd p)) (snd (snd p)))"
proof (induction ps arbitrary: hm)
  case Nil
  show ?case by (simp add: then_res_def split: option.splits sum.splits)
next
  case (Cons q ps)
  show ?case by (simp add: Cons.IH then_res_assoc)
qed

lemma distinct_keys_snoc:
  "distinct_keys mem (ps @ [p]) \<longleftrightarrow>
     distinct_keys mem ps
     \<and> (\<forall>q\<in>set ps. \<not> same_key mem (fst (snd q)) (snd (snd q)) (fst (snd p)) (snd (snd p)))"
  by (induction ps) (auto simp: list_all_iff)

lemma distinct_keys_take: "distinct_keys mem ps \<Longrightarrow> distinct_keys mem (take j ps)"
proof (induction ps arbitrary: j)
  case Nil
  then show ?case by simp
next
  case (Cons p ps)
  show ?case
  proof (cases j)
    case 0
    then show ?thesis by simp
  next
    case (Suc j')
    have "set (take j' ps) \<subseteq> set ps" by (rule set_take_subset)
    then show ?thesis using Cons Suc by (auto simp: list_all_iff)
  qed
qed

lemma no_load_le_5: "unat c \<le> 5 \<Longrightarrow> \<not> load_factor_ge_07 c 8"
  by (simp add: load_factor_ge_07_def u64_to_double_def Let_def)

lemma load_6: "unat c = 6 \<Longrightarrow> load_factor_ge_07 c 8"
  by (simp add: load_factor_ge_07_def u64_to_double_def Let_def)

lemma puts_up_to_six:
  "distinct_keys mem ops \<Longrightarrow> length ops \<le> 6 \<Longrightarrow>
     \<exists>hm xs. put_all (hashmap_init hm0) mem kt ops = Some (Inr hm)
        \<and> probe_inv mem hm 3 xs \<and> entries xs = set ops
        \<and> unat (count hm) = length ops \<and> index hm = index hm0"
proof (induction ops rule: rev_induct)
  case Nil
  have "probe_inv mem (hashmap_init_cap hm0 (2 ^ 3)) 3 (replicate (2 ^ 3) zero_item)"
    by (rule probe_inv_empty) simp
  then have "probe_inv mem (hashmap_init hm0) 3 (replicate 8 zero_item)"
    by (simp add: hashmap_init_def HASHMAP_CAP_DEFAULT_def)
  moreover have "unat (count (hashmap_init hm0)) = 0" "index (hashmap_init hm0) = index hm0"
    by (simp_all add: hashmap_init_def hashmap_init_cap_def)
  ultimately show ?case by (intro exI [of _ "hashmap_init hm0"] exI [of _ "replicate 8 zero_item"]) simp
next
  case (snoc p ps)
  from snoc.prems have d: "distinct_keys mem ps"
    and f: "\<forall>q\<in>set ps. \<not> same_key mem (fst (snd q)) (snd (snd q)) (fst (snd p)) (snd (snd p))"
    and l: "length ps \<le> 5"
    by (simp_all add: distinct_keys_snoc)
  from snoc.IH [OF d] l obtain hm xs where
    h: "put_all (hashmap_init hm0) mem kt ps = Some (Inr hm)" "probe_inv mem hm 3 xs"
       "entries xs = set ps" "unat (count hm) = length ps" "index hm = index hm0"
    by auto
  have cap: "capacity hm = 8" using h(2) by (simp add: probe_inv_def table_ok_def)
  have nl: "\<not> load_factor_ge_07 (count hm) (capacity hm)"
    unfolding cap using h(4) l by (intro no_load_le_5) simp
  have room: "unat (count hm) < 2 ^ 3" using h(4) l by simp
  have fr: "\<forall>q\<in>entries xs. \<not> same_key mem (fst (snd q)) (snd (snd q)) (fst (snd p)) (snd (snd p))"
    using f h(3) by simp
  from put_new_key [OF h(2) _ room fr, of kt "fst p"] nl obtain hm' xs' where
    p: "hashmap_put hm mem kt (fst p) (fst (snd p)) (snd (snd p)) = Some (Inr hm')"
       "probe_inv mem hm' 3 xs'"
       "entries xs' = insert (fst p, fst (snd p), snd (snd p)) (entries xs)"
       "unat (count hm') = unat (count hm) + 1" "index hm' = index hm"
    by auto
  have "put_all (hashmap_init hm0) mem kt (ps @ [p]) = Some (Inr hm')"
    by (simp add: put_all_snoc h(1) p(1) then_res_def)
  moreover have "entries xs' = set (ps @ [p])" using p(3) h(3) by simp
  moreover have "unat (count hm') = length (ps @ [p])" using p(4) h(4) by simp
  moreover have "index hm' = index hm0" using p(5) h(5) by simp
  ultimately show ?case using p(2) by blast
qed

lemma entry_retrievable:
  assumes inv: "probe_inv mem hm k xs" and p: "p \<in> entries xs"
  shows "\<exists>i. hashmap_contains hm mem (fst (snd p)) (snd (snd p)) = Some (Inr (True, hm\<lparr>index := i\<rparr>))
           \<and> hashmap_get hm mem (fst (snd p)) (snd (snd p)) = Some (Inr (fst p, hm\<lparr>index := i\<rparr>))"
proof -
  from inv have its: "items hm = Some xs" and len: "length xs = 2 ^ k"
    by (simp_all add: probe_inv_def table_ok_def)
  from p obtain i where i: "i < length xs" "used (meta (xs ! i)) \<noteq> 0" "triple (xs ! i) = p"
    by (auto simp: entries_iff)
  have e: "fst (snd p) = key (meta (xs ! i))" "snd (snd p) = len (meta (xs ! i))" "fst p = data (xs ! i)"
    using i(3) by (auto simp: triple_def)
  have il: "i < 2 ^ k" using i(1) len by simp
  have lk: "hashmap_lookup (Some xs) (capacity hm) (maxcol hm) mem (fst (snd p)) (snd (snd p))
           = Some (Inr (int i))"
    unfolding e using inv il i(2) same_key_refl by (rule lookup_finds)
  have "hashmap_contains hm mem (fst (snd p)) (snd (snd p)) = Some (Inr (True, hm\<lparr>index := int i\<rparr>))"
    using lk by (simp add: hashmap_contains_def its then_res_def)
  moreover have "hashmap_get hm mem (fst (snd p)) (snd (snd p)) = Some (Inr (fst p, hm\<lparr>index := int i\<rparr>))"
    using lk i(1) by (simp add: hashmap_get_def hashmap_at_def its then_res_def e(3))
  ultimately show ?thesis by blast
qed


section \<open>The put that grows the table\<close>

text \<open>
  C2 as stated fails: the load factor is tested before the insertion, so the sixth put
  sees \<open>5 / 8 = 0.625\<close> and does not grow. After the six distinct words \<open>a\<close> to \<open>f\<close> the
  capacity is still 8, with \<open>count = 6\<close>.
\<close>

theorem sixth_put_does_not_grow:
  "distinct_keys dict_mem six_words
   \<and> put_all (hashmap_init hashmap_zero) dict_mem Signed_char (take 5 six_words) = Some (Inr five_table)
   \<and> \<not> load_factor_ge_07 (count five_table) (capacity five_table)
   \<and> put_all (hashmap_init hashmap_zero) dict_mem Signed_char six_words = Some (Inr six_table)
   \<and> capacity six_table = 8 \<and> count six_table = 6"
proof -
  have "distinct_keys dict_mem six_words"
    by (simp add: six_words_def same_key_def hashmap_match_item_def first_char_def dict_mem_def)
  moreover have "put_all (hashmap_init hashmap_zero) dict_mem Signed_char six_words = Some (Inr six_table)"
    by (simp add: hm_eval six_table_def entry_def)
  ultimately show ?thesis
    using five_table_reached by (simp add: five_table_def six_table_def)
qed

text \<open>
  C2, amended. Starting from a fresh table of capacity 8, for every memory, every pointer
  type and every seven puts with pairwise different keys: each of the first six puts
  returns without a grow (after \<open>j \<le> 6\<close> puts the capacity is 8 and \<open>count\<close> is \<open>j\<close>); at
  the seventh put the load-factor test succeeds (\<open>6 / 8 \<ge> 0.7\<close>), \<open>hashmap_grow\<close> rebuilds
  the six entries into a table of capacity 16, and only then is the seventh key placed;
  afterwards the capacity is 16, \<open>count\<close> is 7, and for each of the seven keys
  \<open>hashmap_contains\<close> returns true and \<open>hashmap_get\<close> returns the value put with it.
\<close>

theorem seventh_put_grows:
  assumes d: "distinct_keys mem ops" and l: "length ops = 7"
  shows "(\<forall>j\<le>6. \<exists>hm. put_all (hashmap_init hm0) mem kt (take j ops) = Some (Inr hm)
                   \<and> capacity hm = 8 \<and> unat (count hm) = j)
       \<and> (\<exists>hm6 g hm7.
            put_all (hashmap_init hm0) mem kt (take 6 ops) = Some (Inr hm6)
            \<and> load_factor_ge_07 (count hm6) (capacity hm6)
            \<and> hashmap_grow hm6 mem = Some (Inr g) \<and> capacity g = 16 \<and> unat (count g) = 6
            \<and> hashmap_put_nogrow g mem kt (fst (ops ! 6)) (fst (snd (ops ! 6))) (snd (snd (ops ! 6)))
                 = Some (Inr hm7)
            \<and> put_all (hashmap_init hm0) mem kt ops = Some (Inr hm7)
            \<and> capacity hm7 = 16 \<and> unat (count hm7) = 7
            \<and> (\<forall>p\<in>set ops. \<exists>i.
                  hashmap_contains hm7 mem (fst (snd p)) (snd (snd p))
                    = Some (Inr (True, hm7\<lparr>index := i\<rparr>))
                  \<and> hashmap_get hm7 mem (fst (snd p)) (snd (snd p))
                    = Some (Inr (fst p, hm7\<lparr>index := i\<rparr>))))"
proof
  show "\<forall>j\<le>6. \<exists>hm. put_all (hashmap_init hm0) mem kt (take j ops) = Some (Inr hm)
                   \<and> capacity hm = 8 \<and> unat (count hm) = j"
  proof (intro allI impI)
    fix j :: nat assume j: "j \<le> 6"
    have "distinct_keys mem (take j ops)" using d by (rule distinct_keys_take)
    moreover have lj: "length (take j ops) = j" using j l by simp
    ultimately obtain hm xs where
      "put_all (hashmap_init hm0) mem kt (take j ops) = Some (Inr hm)" "probe_inv mem hm 3 xs"
      "unat (count hm) = length (take j ops)"
      using puts_up_to_six [of mem "take j ops" hm0 kt] j by auto
    then show "\<exists>hm. put_all (hashmap_init hm0) mem kt (take j ops) = Some (Inr hm)
                   \<and> capacity hm = 8 \<and> unat (count hm) = j"
      using lj by (auto simp: probe_inv_def table_ok_def)
  qed
next
  define p where "p = ops ! 6"
  have ops: "ops = take 6 ops @ [p]"
    using l by (simp add: p_def take_Suc_conv_app_nth [symmetric])
  have d6: "distinct_keys mem (take 6 ops)" using d by (rule distinct_keys_take)
  have f: "\<forall>q\<in>set (take 6 ops). \<not> same_key mem (fst (snd q)) (snd (snd q)) (fst (snd p)) (snd (snd p))"
    using d distinct_keys_snoc [of mem "take 6 ops" p] ops by simp
  have l6: "length (take 6 ops) = 6" using l by simp
  from puts_up_to_six [OF d6, of hm0 kt] l6 obtain hm6 xs where
    h: "put_all (hashmap_init hm0) mem kt (take 6 ops) = Some (Inr hm6)" "probe_inv mem hm6 3 xs"
       "entries xs = set (take 6 ops)" "unat (count hm6) = 6"
    by auto
  have cap: "capacity hm6 = 8" using h(2) by (simp add: probe_inv_def table_ok_def)
  have ld: "load_factor_ge_07 (count hm6) (capacity hm6)"
    unfolding cap using h(4) by (rule load_6)
  from grow_keeps_inv [OF h(2)] obtain g ys where
    g: "hashmap_grow hm6 mem = Some (Inr g)" "probe_inv mem g (Suc 3) ys"
       "entries ys = entries xs" "unat (count g) = unat (count hm6)" "capacity g = 2 ^ Suc 3"
    by auto
  have rg: "unat (count g) < 2 ^ Suc 3" using g(4) h(4) by simp
  have fg: "\<forall>q\<in>entries ys. \<not> same_key mem (fst (snd q)) (snd (snd q)) (fst (snd p)) (snd (snd p))"
    using f g(3) h(3) by simp
  from put_nogrow_new_key [OF g(2) rg fg, of kt "fst p"] obtain hm7 zs where
    q: "hashmap_put_nogrow g mem kt (fst p) (fst (snd p)) (snd (snd p)) = Some (Inr hm7)"
       "probe_inv mem hm7 (Suc 3) zs"
       "entries zs = insert (fst p, fst (snd p), snd (snd p)) (entries ys)"
       "unat (count hm7) = unat (count g) + 1"
    by blast
  have put7: "hashmap_put hm6 mem kt (fst p) (fst (snd p)) (snd (snd p)) = Some (Inr hm7)"
    using ld g(1) q(1) by (simp add: hashmap_put_def then_res_def)
  have "put_all (hashmap_init hm0) mem kt (take 6 ops @ [p]) = Some (Inr hm7)"
    by (simp add: put_all_snoc h(1) put7 then_res_def)
  then have all: "put_all (hashmap_init hm0) mem kt ops = Some (Inr hm7)" using ops by simp
  have "entries zs = set (take 6 ops @ [p])" using q(3) g(3) h(3) by simp
  then have ez: "entries zs = set ops" using ops by simp
  have c7: "capacity hm7 = 16" using q(2) by (simp add: probe_inv_def table_ok_def)
  have r: "\<forall>p\<in>set ops. \<exists>i.
                  hashmap_contains hm7 mem (fst (snd p)) (snd (snd p))
                    = Some (Inr (True, hm7\<lparr>index := i\<rparr>))
                  \<and> hashmap_get hm7 mem (fst (snd p)) (snd (snd p))
                    = Some (Inr (fst p, hm7\<lparr>index := i\<rparr>))"
    using entry_retrievable [OF q(2)] ez by blast
  have "capacity g = 16" using g(5) by simp
  moreover have "unat (count g) = 6" using g(4) h(4) by simp
  moreover have "unat (count hm7) = 7" using q(4) g(4) h(4) by simp
  ultimately show "\<exists>hm6 g hm7.
            put_all (hashmap_init hm0) mem kt (take 6 ops) = Some (Inr hm6)
            \<and> load_factor_ge_07 (count hm6) (capacity hm6)
            \<and> hashmap_grow hm6 mem = Some (Inr g) \<and> capacity g = 16 \<and> unat (count g) = 6
            \<and> hashmap_put_nogrow g mem kt (fst (ops ! 6)) (fst (snd (ops ! 6))) (snd (snd (ops ! 6)))
                 = Some (Inr hm7)
            \<and> put_all (hashmap_init hm0) mem kt ops = Some (Inr hm7)
            \<and> capacity hm7 = 16 \<and> unat (count hm7) = 7
            \<and> (\<forall>p\<in>set ops. \<exists>i.
                  hashmap_contains hm7 mem (fst (snd p)) (snd (snd p))
                    = Some (Inr (True, hm7\<lparr>index := i\<rparr>))
                  \<and> hashmap_get hm7 mem (fst (snd p)) (snd (snd p))
                    = Some (Inr (fst p, hm7\<lparr>index := i\<rparr>)))"
    using h(1) ld g(1) q(1) all c7 r unfolding p_def by blast
qed

theorem seventh_put_grows_witness:
  "distinct_keys dict_mem seven_words \<and> length seven_words = 7
   \<and> put_all (hashmap_init hashmap_zero) dict_mem Signed_char (take 6 seven_words) = Some (Inr six_table)
   \<and> capacity six_table = 8
   \<and> put_all (hashmap_init hashmap_zero) dict_mem Signed_char seven_words = Some (Inr seven_table)
   \<and> capacity seven_table = 16 \<and> unat (count seven_table) = 7
   \<and> (1, 0x1000, 1) \<in> set seven_words
   \<and> hashmap_get seven_table dict_mem 0x1000 1 = Some (Inr (1, seven_table\<lparr>index := 14\<rparr>))"
proof -
  have d: "distinct_keys dict_mem seven_words"
    by (simp add: seven_words_def six_words_def same_key_def hashmap_match_item_def first_char_def
        dict_mem_def)
  have l: "length seven_words = 7" by (simp add: seven_words_def six_words_def)
  have e: "put_all (hashmap_init hashmap_zero) dict_mem Signed_char seven_words = Some (Inr seven_table)"
    by (simp add: hm_eval seven_words_def seven_table_def entry_def)
  have m: "(1, 0x1000, 1) \<in> set seven_words" by (simp add: seven_words_def six_words_def)
  from seventh_put_grows [OF d l, of hashmap_zero Signed_char] e obtain hm7 where
    h: "hm7 = seven_table" "capacity hm7 = 16" "unat (count hm7) = 7"
       "\<forall>p\<in>set seven_words. \<exists>i.
           hashmap_contains hm7 dict_mem (fst (snd p)) (snd (snd p)) = Some (Inr (True, hm7\<lparr>index := i\<rparr>))
           \<and> hashmap_get hm7 dict_mem (fst (snd p)) (snd (snd p)) = Some (Inr (fst p, hm7\<lparr>index := i\<rparr>))"
    by auto
  from h(4) [rule_format, OF m] obtain i where
    "hashmap_get seven_table dict_mem 0x1000 1 = Some (Inr (1, seven_table\<lparr>index := i\<rparr>))"
    unfolding h(1) by auto
  moreover have "hashmap_get seven_table dict_mem 0x1000 1
                   = Some (Inr (1, seven_table\<lparr>index := 14\<rparr>))"
    by (simp add: hm_eval hashmap_get_def hashmap_at_def seven_table_def entry_def)
  moreover have "put_all (hashmap_init hashmap_zero) dict_mem Signed_char (take 6 seven_words)
                   = Some (Inr six_table)"
    by (simp add: hm_eval seven_words_def six_table_def entry_def)
  moreover have "capacity six_table = 8" by (simp add: six_table_def)
  ultimately show ?thesis using d l e m h(2,3) unfolding h(1) by simp
qed


end
